theory Spec2Isabelle
  imports Main
begin

section \<open>JavaScript strings\<close>

text \<open>
  A JavaScript string is modelled as a \<open>string\<close>; each \<open>char\<close> stands for one code unit
  below 256. The white space of \<open>String.prototype.trim\<close> and of the regular expression
  class \<open>\s\<close> is, in that range, TAB, LF, VT, FF, CR, SPACE and NBSP; the line terminators
  of \<open>.\<close>, \<open>^\<close> and \<open>$\<close> are LF and CR.
\<close>

definition LF :: char where
  "LF = CHR 0x0A"

definition isSpace :: "char \<Rightarrow> bool" where
  "isSpace c = (c \<in> set [CHR 0x09, CHR 0x0A, CHR 0x0B, CHR 0x0C, CHR 0x0D, CHR 0x20, CHR 0xA0])"

definition isLineTerminator :: "char \<Rightarrow> bool" where
  "isLineTerminator c = (c = CHR 0x0A \<or> c = CHR 0x0D)"

definition isDigit :: "char \<Rightarrow> bool" where
  "isDigit c = (48 \<le> (of_char c :: nat) \<and> (of_char c :: nat) \<le> 57)"

definition isWord :: "char \<Rightarrow> bool" where
  "isWord c = ((97 \<le> (of_char c :: nat) \<and> (of_char c :: nat) \<le> 122)
                \<or> (65 \<le> (of_char c :: nat) \<and> (of_char c :: nat) \<le> 90)
                \<or> isDigit c \<or> c = CHR ''_'')"

definition trimStart :: "string \<Rightarrow> string" where
  "trimStart s = dropWhile isSpace s"

definition trimEnd :: "string \<Rightarrow> string" where
  "trimEnd s = rev (dropWhile isSpace (rev s))"

definition trim :: "string \<Rightarrow> string" where
  "trim s = trimEnd (trimStart s)"

definition startsWith :: "string \<Rightarrow> string \<Rightarrow> bool" where
  "startsWith s p = (take (length p) s = p)"

definition endsWith :: "string \<Rightarrow> string \<Rightarrow> bool" where
  "endsWith s p = (length p \<le> length s \<and> drop (length s - length p) s = p)"

text \<open>\<open>s.split(c)\<close> for a one-character separator: always at least one piece.\<close>

fun splitAcc :: "char \<Rightarrow> string \<Rightarrow> string \<Rightarrow> string list" where
  "splitAcc c acc [] = [rev acc]"
| "splitAcc c acc (x # xs) = (if x = c then rev acc # splitAcc c [] xs else splitAcc c (x # acc) xs)"

definition split :: "string \<Rightarrow> char \<Rightarrow> string list" where
  "split s c = splitAcc c [] s"

text \<open>The decimal digits of an array index, as a template literal prints them.\<close>

fun digitsAcc :: "nat \<Rightarrow> nat \<Rightarrow> string \<Rightarrow> string" where
  "digitsAcc 0 n acc = acc"
| "digitsAcc (Suc fuel) n acc =
     (let acc' = char_of (48 + n mod 10) # acc
      in if n div 10 = 0 then acc' else digitsAcc fuel (n div 10) acc')"

definition showNat :: "nat \<Rightarrow> string" where
  "showNat n = digitsAcc (Suc n) n []"

section \<open>Regular expressions\<close>

text \<open>
  The regular expressions of the source are written as terms of \<open>regex\<close> and run by a
  backtracking matcher that lists the matches at a position in the order in which
  JavaScript tries them; \<open>exec\<close> takes the first. \<open>Rep lo hi greedy r\<close> is the quantifier
  \<open>{lo,hi}\<close> (\<open>*\<close> is \<open>Rep 0 None\<close>, \<open>+\<close> is \<open>Rep 1 None\<close>, \<open>?\<close> is \<open>Rep 0 (Some 1)\<close>),
  \<open>Grp n r\<close> the capturing group number \<open>n\<close>.
\<close>

datatype citem = CChar char | CSpace | CNotSpace | CDigit | CWord

fun inItem :: "char \<Rightarrow> citem \<Rightarrow> bool" where
  "inItem c (CChar d) = (c = d)"
| "inItem c CSpace = isSpace c"
| "inItem c CNotSpace = (\<not> isSpace c)"
| "inItem c CDigit = isDigit c"
| "inItem c CWord = isWord c"

definition inClass :: "char \<Rightarrow> citem list \<Rightarrow> bool" where
  "inClass c items = list_ex (inItem c) items"

datatype regex =
    Lit char
  | Str string
  | Dot
  | Cls "citem list"
  | NCls "citem list"
  | Bol
  | Eol
  | Seq regex regex
  | Alt regex regex
  | Rep nat "nat option" bool regex
  | Grp nat regex

text \<open>
  A matcher state: the text before the position (reversed), the text from the position
  on, and the captures made so far.
\<close>

type_synonym captures = "(nat \<times> string) list"
type_synonym mstate = "string \<times> string \<times> captures"

fun rsize :: "regex \<Rightarrow> nat" where
  "rsize (Seq r1 r2) = Suc (rsize r1 + rsize r2)"
| "rsize (Alt r1 r2) = Suc (rsize r1 + rsize r2)"
| "rsize (Rep lo hi g r) = Suc (rsize r)"
| "rsize (Grp n r) = Suc (rsize r)"
| "rsize _ = 0"

fun consume :: "(char \<Rightarrow> bool) \<Rightarrow> mstate \<Rightarrow> mstate list" where
  "consume p (b, [], cs) = []"
| "consume p (b, x # xs, cs) = (if p x then [(x # b, xs, cs)] else [])"

definition atBol :: "bool \<Rightarrow> string \<Rightarrow> bool" where
  "atBol ml b = (case b of [] \<Rightarrow> True | x # _ \<Rightarrow> ml \<and> isLineTerminator x)"

definition atEol :: "bool \<Rightarrow> string \<Rightarrow> bool" where
  "atEol ml s = (case s of [] \<Rightarrow> True | x # _ \<Rightarrow> ml \<and> isLineTerminator x)"

definition decHi :: "nat option \<Rightarrow> nat option" where
  "decHi hi = map_option (\<lambda>h. h - 1) hi"

function matchR :: "bool \<Rightarrow> regex \<Rightarrow> mstate \<Rightarrow> mstate list" where
  "matchR ml (Lit c) st = consume (\<lambda>x. x = c) st"
| "matchR ml (Str w) (b, s, cs) =
     (if take (length w) s = w then [(rev w @ b, drop (length w) s, cs)] else [])"
| "matchR ml Dot st = consume (\<lambda>x. \<not> isLineTerminator x) st"
| "matchR ml (Cls items) st = consume (\<lambda>x. inClass x items) st"
| "matchR ml (NCls items) st = consume (\<lambda>x. \<not> inClass x items) st"
| "matchR ml Bol (b, s, cs) = (if atBol ml b then [(b, s, cs)] else [])"
| "matchR ml Eol (b, s, cs) = (if atEol ml s then [(b, s, cs)] else [])"
| "matchR ml (Seq r1 r2) st = concat (map (matchR ml r2) (matchR ml r1 st))"
| "matchR ml (Alt r1 r2) st = matchR ml r1 st @ matchR ml r2 st"
| "matchR ml (Grp n r) (b, s, cs) =
     map (\<lambda>(b', s', cs'). (b', s', (n, take (length s - length s') s) # cs'))
         (matchR ml r (b, s, cs))"
| "matchR ml (Rep lo hi g r) (b, s, cs) =
     (if hi = Some 0 then [(b, s, cs)]
      else
        let more = concat (map (\<lambda>(b', s', cs').
                      if length s' < length s
                      then matchR ml (Rep (lo - 1) (decHi hi) g r) (b', s', cs')
                      else [])
                    (matchR ml r (b, s, cs)))
        in if 0 < lo then more
           else if g then more @ [(b, s, cs)]
           else (b, s, cs) # more)"
  by pat_completeness auto
termination
  by (relation "inv_image (less_than <*lex*> less_than) (\<lambda>(ml, r, b, s, cs). (rsize r, length s))")
     auto


abbreviation Star :: "regex \<Rightarrow> regex" where
  "Star r \<equiv> Rep 0 None True r"

abbreviation Plus :: "regex \<Rightarrow> regex" where
  "Plus r \<equiv> Rep 1 None True r"

abbreviation Opt :: "regex \<Rightarrow> regex" where
  "Opt r \<equiv> Rep 0 (Some 1) True r"

abbreviation PlusLazy :: "regex \<Rightarrow> regex" where
  "PlusLazy r \<equiv> Rep 1 None False r"

abbreviation StarLazy :: "regex \<Rightarrow> regex" where
  "StarLazy r \<equiv> Rep 0 None False r"

fun seqs :: "regex list \<Rightarrow> regex" where
  "seqs [] = Str []"
| "seqs [r] = r"
| "seqs (r # rs) = Seq r (seqs rs)"

text \<open>The value of capture \<open>n\<close>; a group that took no part reads as the empty string.\<close>

definition cap :: "captures \<Rightarrow> nat \<Rightarrow> string" where
  "cap cs n = (case map_of cs n of Some v \<Rightarrow> v | None \<Rightarrow> [])"

text \<open>\<open>regex.test(s)\<close>: is there a match starting at some position of \<open>s\<close>?\<close>

fun testFrom :: "bool \<Rightarrow> regex \<Rightarrow> string \<Rightarrow> string \<Rightarrow> bool" where
  "testFrom ml r b [] = (matchR ml r (b, [], []) \<noteq> [])"
| "testFrom ml r b (x # xs) = (matchR ml r (b, x # xs, []) \<noteq> [] \<or> testFrom ml r (x # b) xs)"

definition test :: "bool \<Rightarrow> regex \<Rightarrow> string \<Rightarrow> bool" where
  "test ml r s = testFrom ml r [] s"

text \<open>
  \<open>s.replace(regex, f)\<close> for a regular expression with the \<open>g\<close> flag: every match, found
  from left to right after the end of the one before, is replaced by what \<open>f\<close> returns for
  the matched text and the captures. After an empty match the search moves on by one
  character.
\<close>

function replaceFrom ::
  "bool \<Rightarrow> regex \<Rightarrow> (string \<Rightarrow> captures \<Rightarrow> string) \<Rightarrow> string \<Rightarrow> string \<Rightarrow> string" where
  "replaceFrom ml r f b s =
     (case matchR ml r (b, s, []) of
        (b', s', cs) # _ \<Rightarrow>
          f (take (length s - length s') s) cs @
            (if length s' < length s then replaceFrom ml r f b' s'
             else (case s of [] \<Rightarrow> [] | x # xs \<Rightarrow> x # replaceFrom ml r f (x # b) xs))
      | [] \<Rightarrow> (case s of [] \<Rightarrow> [] | x # xs \<Rightarrow> x # replaceFrom ml r f (x # b) xs))"
  by pat_completeness auto
termination
  by (relation "measure (\<lambda>(ml, r, f, b, s). length s)") auto

definition replaceAll :: "bool \<Rightarrow> regex \<Rightarrow> (string \<Rightarrow> captures \<Rightarrow> string) \<Rightarrow> string \<Rightarrow> string" where
  "replaceAll ml r f s = replaceFrom ml r f [] s"

section \<open>The table parser\<close>

text \<open>\<open>/(?:^|\n)((?:\|[^\n]+\|\s*\n)+)/g\<close>\<close>

definition tableRegex :: regex where
  "tableRegex =
     Seq (Alt Bol (Lit LF))
         (Grp 1 (Plus (seqs [Lit (CHR ''|''), Plus (NCls [CChar LF]), Lit (CHR ''|''),
                             Star (Cls [CSpace]), Lit LF])))"

definition parseTableRow :: "string \<Rightarrow> string list" where
  "parseTableRow line =
     (let trimmed = trim line;
          trimmed = (if startsWith trimmed ''|'' then drop 1 trimmed else trimmed);
          trimmed = (if endsWith trimmed ''|'' then butlast trimmed else trimmed)
      in map trim (split trimmed (CHR ''|'')))"

text \<open>\<open>/^\|?[\s\-:\|]+\|?$/\<close>\<close>

definition separatorRegex :: regex where
  "separatorRegex =
     seqs [Bol, Opt (Lit (CHR ''|'')),
           Plus (Cls [CSpace, CChar (CHR ''-''), CChar (CHR '':''), CChar (CHR ''|'')]),
           Opt (Lit (CHR ''|'')), Eol]"

definition isSeparatorRow :: "string \<Rightarrow> bool" where
  "isSeparatorRow line =
     (let trimmed = trim line
      in test False separatorRegex trimmed \<and> CHR ''-'' \<in> set trimmed)"

definition parseAlignment :: "string \<Rightarrow> string list" where
  "parseAlignment line =
     map (\<lambda>cell.
            let trimmed = trim cell;
                leftColon = startsWith trimmed '':'';
                rightColon = endsWith trimmed '':''
            in if leftColon \<and> rightColon then ''center''
               else if rightColon then ''right''
               else ''left'')
         (parseTableRow line)"

text \<open>The loop of lines 94 to 100: the index of the first separator row, or \<open>-1\<close>.\<close>

fun separatorLoop :: "nat \<Rightarrow> string list \<Rightarrow> int" where
  "separatorLoop i [] = - 1"
| "separatorLoop i (l # ls) = (if isSeparatorRow l then int i else separatorLoop (Suc i) ls)"

text \<open>\<open>alignments[index] || 'left'\<close>: beyond the array the read is undefined.\<close>

definition alignAt :: "string list \<Rightarrow> nat \<Rightarrow> string" where
  "alignAt alignments index = (if index < length alignments then alignments ! index else ''left'')"

definition tableCells :: "string \<Rightarrow> string list \<Rightarrow> string list \<Rightarrow> string" where
  \<open>tableCells tag alignments cells =
     concat (map (\<lambda>(index, cell).
                    ''<'' @ tag @ '' style="text-align:'' @ alignAt alignments index @ ''">'' @ cell
                      @ ''</'' @ tag @ ''>\<newline>'')
                 (enumerate 0 cells))\<close>

definition tableRowHTML :: "string \<Rightarrow> string list \<Rightarrow> string \<Rightarrow> string" where
  \<open>tableRowHTML tag alignments line =
     ''<tr>\<newline>'' @ tableCells tag alignments (parseTableRow line) @ ''</tr>\<newline>''\<close>

text \<open>Line 67: \<open>tableBlock.trim().split('\n').filter(line => line.trim())\<close>\<close>

definition blockLines :: "string \<Rightarrow> string list" where
  "blockLines tableBlock = filter (\<lambda>line. trim line \<noteq> []) (split (trim tableBlock) LF)"

text \<open>The callback of \<open>text.replace(tableRegex, ...)\<close>, lines 66 to 136.\<close>

definition tableCallback :: "string \<Rightarrow> captures \<Rightarrow> string" where
  \<open>tableCallback match cs =
     (let tableBlock = cap cs 1;
          lines = blockLines tableBlock
      in if length lines < 2 then match
         else
           let separatorIndex = separatorLoop 0 lines
           in if separatorIndex = - 1 \<or> separatorIndex = 0 then match
              else
                let sep = nat separatorIndex;
                    alignments = parseAlignment (lines ! sep)
                in ''\<newline><table class="markdown-table">\<newline><thead>\<newline>''
                   @ concat (map (tableRowHTML ''th'' alignments) (take sep lines))
                   @ ''</thead>\<newline>''
                   @ (if sep < length lines - 1
                      then ''<tbody>\<newline>''
                           @ concat (map (tableRowHTML ''td'' alignments) (drop (sep + 1) lines))
                           @ ''</tbody>\<newline>''
                      else [])
                   @ ''</table>\<newline>'')\<close>

text \<open>
  A JavaScript value as a rendering stage may receive it. The guard
  \<open>!text || typeof text !== 'string'\<close> lets through the non-empty strings only.
\<close>

datatype jsval = JUndefined | JNull | JBool bool | JNum int | JStr string

fun guardString :: "jsval \<Rightarrow> string option" where
  "guardString (JStr s) = (if s = [] then None else Some s)"
| "guardString _ = None"

definition parseMarkdownTablesStr :: "string \<Rightarrow> string" where
  "parseMarkdownTablesStr text = replaceAll False tableRegex tableCallback text"

definition parseMarkdownTables :: "jsval \<Rightarrow> string" where
  "parseMarkdownTables text =
     (case guardString text of None \<Rightarrow> [] | Some t \<Rightarrow> parseMarkdownTablesStr t)"


section \<open>The Markdown transformer\<close>

text \<open>
  \<open>s.replace(regex, f)\<close> where the callback also appends to an array: the array is
  passed through the calls from left to right.
\<close>

function replaceFromS ::
  "bool \<Rightarrow> regex \<Rightarrow> (string \<Rightarrow> captures \<Rightarrow> 'a \<Rightarrow> string \<times> 'a) \<Rightarrow> string \<Rightarrow> string \<Rightarrow> 'a
    \<Rightarrow> string \<times> 'a" where
  "replaceFromS ml r f b s acc =
     (case matchR ml r (b, s, []) of
        (b', s', cs) # _ \<Rightarrow>
          (let (out, acc') = f (take (length s - length s') s) cs acc;
               (rest, acc'') =
                 (if length s' < length s then replaceFromS ml r f b' s' acc'
                  else (case s of [] \<Rightarrow> ([], acc')
                        | x # xs \<Rightarrow> (let (t, a) = replaceFromS ml r f (x # b) xs acc' in (x # t, a))))
           in (out @ rest, acc''))
      | [] \<Rightarrow> (case s of [] \<Rightarrow> ([], acc)
               | x # xs \<Rightarrow> (let (t, a) = replaceFromS ml r f (x # b) xs acc in (x # t, a))))"
  by pat_completeness auto
termination
  by (relation "measure (\<lambda>(ml, r, f, b, s, acc). length s)") auto

definition replaceAllS ::
  "bool \<Rightarrow> regex \<Rightarrow> (string \<Rightarrow> captures \<Rightarrow> 'a \<Rightarrow> string \<times> 'a) \<Rightarrow> string \<Rightarrow> 'a \<Rightarrow> string \<times> 'a" where
  "replaceAllS ml r f s acc = replaceFromS ml r f [] s acc"

text \<open>
  \<open>s.replace(pattern, replacement)\<close> with two strings: the first occurrence only, and
  the replacement is a template in which \<open>$$\<close>, \<open>$&\<close>, \<open>$`\<close> and \<open>$'\<close> stand for a dollar
  sign, the matched text, the text before it and the text after it (there are no
  captures, so \<open>$1\<close> is literal).
\<close>

fun getSubstitution :: "string \<Rightarrow> string \<Rightarrow> string \<Rightarrow> string \<Rightarrow> string" where
  "getSubstitution matched front back [] = []"
| "getSubstitution matched front back [c] = [c]"
| "getSubstitution matched front back (c # d # t) =
     (if c = CHR ''$'' \<and> d = CHR ''$'' then CHR ''$'' # getSubstitution matched front back t
      else if c = CHR ''$'' \<and> d = CHR ''&'' then matched @ getSubstitution matched front back t
      else if c = CHR ''$'' \<and> d = CHR 0x60 then front @ getSubstitution matched front back t
      else if c = CHR ''$'' \<and> d = CHR 0x27 then back @ getSubstitution matched front back t
      else c # getSubstitution matched front back (d # t))"

fun replaceFirstFrom :: "string \<Rightarrow> string \<Rightarrow> string \<Rightarrow> string \<Rightarrow> string" where
  "replaceFirstFrom pat repl b [] =
     (if pat = [] then getSubstitution pat (rev b) [] repl else [])"
| "replaceFirstFrom pat repl b (x # xs) =
     (if take (length pat) (x # xs) = pat
      then getSubstitution pat (rev b) (drop (length pat) (x # xs)) repl
             @ drop (length pat) (x # xs)
      else x # replaceFirstFrom pat repl (x # b) xs)"

definition replaceFirst :: "string \<Rightarrow> string \<Rightarrow> string \<Rightarrow> string" where
  "replaceFirst pat repl s = replaceFirstFrom pat repl [] s"

text \<open>\<open>code.replace(/&/g, '&amp;').replace(/</g, '&lt;').replace(/>/g, '&gt;')\<close>\<close>

definition escapeCode :: "string \<Rightarrow> string" where
  "escapeCode code =
     replaceAll False (Lit (CHR ''>'')) (\<lambda>m cs. ''&gt;'')
       (replaceAll False (Lit (CHR ''<'')) (\<lambda>m cs. ''&lt;'')
         (replaceAll False (Lit (CHR ''&'')) (\<lambda>m cs. ''&amp;'') code))"

text \<open>\<open>/```(\w*)\n?([\s\S]*?)```/g\<close>\<close>

definition codeBlockRegex :: regex where
  "codeBlockRegex =
     seqs [Str [CHR 0x60, CHR 0x60, CHR 0x60], Grp 1 (Star (Cls [CWord])), Opt (Lit LF),
           Grp 2 (StarLazy (Cls [CSpace, CNotSpace])), Str [CHR 0x60, CHR 0x60, CHR 0x60]]"

definition codeBlockCallback :: "string \<Rightarrow> captures \<Rightarrow> string list \<Rightarrow> string \<times> string list" where
  \<open>codeBlockCallback match cs codeBlocks =
     (let lang = cap cs 1; code = cap cs 2;
          index = length codeBlocks;
          escapedCode = trim (escapeCode code);
          langClass = (if lang \<noteq> [] then '' class="language-'' @ lang @ ''"'' else [])
      in (''%%CODEBLOCK_'' @ showNat index @ ''%%'',
          codeBlocks @ [''<pre><code'' @ langClass @ ''>'' @ escapedCode @ ''</code></pre>'']))\<close>

text \<open>\<open>/`([^`]+)`/g\<close>\<close>

definition inlineCodeRegex :: regex where
  "inlineCodeRegex = seqs [Lit (CHR 0x60), Grp 1 (Plus (NCls [CChar (CHR 0x60)])), Lit (CHR 0x60)]"

definition inlineCodeCallback :: "string \<Rightarrow> captures \<Rightarrow> string list \<Rightarrow> string \<times> string list" where
  "inlineCodeCallback match cs inlineCodes =
     (let code = cap cs 1;
          index = length inlineCodes;
          escapedCode = escapeCode code
      in (''%%INLINECODE_'' @ showNat index @ ''%%'',
          inlineCodes @ [''<code>'' @ escapedCode @ ''</code>'']))"

text \<open>\<open>/^[\s]*[-*_]{3,}[\s]*$/gm\<close>\<close>

definition hrRegex :: regex where
  "hrRegex =
     seqs [Bol, Star (Cls [CSpace]),
           Rep 3 None True (Cls [CChar (CHR ''-''), CChar (CHR ''*''), CChar (CHR ''_'')]),
           Star (Cls [CSpace]), Eol]"

text \<open>\<open>/^###### (.+)$/gm\<close> down to \<open>/^# (.+)$/gm\<close>, and \<open>/^> (.+)$/gm\<close>\<close>

definition lineRegex :: "string \<Rightarrow> regex" where
  "lineRegex marker = seqs [Bol, Str marker, Grp 1 (Plus Dot), Eol]"

definition wrapTag :: "string \<Rightarrow> string \<Rightarrow> string" where
  "wrapTag tag body = ''<'' @ tag @ ''>'' @ body @ ''</'' @ tag @ ''>''"

text \<open>\<open>/<\/blockquote>\n<blockquote>/g\<close>\<close>

definition quoteJoinRegex :: regex where
  \<open>quoteJoinRegex = Str ''</blockquote>\<newline><blockquote>''\<close>

text \<open>\<open>/^[\s]*[-*+] ([^\n]+)$/gm\<close> and the test \<open>/^[-:\s|]+$/\<close> of its callback\<close>

definition bulletRegex :: regex where
  "bulletRegex =
     seqs [Bol, Star (Cls [CSpace]),
           Cls [CChar (CHR ''-''), CChar (CHR ''*''), CChar (CHR ''+'')], Lit (CHR '' ''),
           Grp 1 (Plus (NCls [CChar LF])), Eol]"

definition separatorLikeRegex :: regex where
  "separatorLikeRegex =
     seqs [Bol, Plus (Cls [CChar (CHR ''-''), CChar (CHR '':''), CSpace, CChar (CHR ''|'')]), Eol]"

definition bulletCallback :: "string \<Rightarrow> captures \<Rightarrow> string" where
  "bulletCallback match cs =
     (let content = cap cs 1
      in if test False separatorLikeRegex content then match
         else ''<li>'' @ content @ ''</li>'')"

text \<open>\<open>/^[\s]*\d+\. (.+)$/gm\<close>\<close>

definition orderedRegex :: regex where
  "orderedRegex =
     seqs [Bol, Star (Cls [CSpace]), Plus (Cls [CDigit]), Lit (CHR ''.''), Lit (CHR '' ''),
           Grp 1 (Plus Dot), Eol]"

text \<open>\<open>/(<li>[^<]*<\/li>\n?)+/g\<close>\<close>

definition listRunRegex :: regex where
  "listRunRegex =
     Plus (Grp 1 (seqs [Str ''<li>'', Star (NCls [CChar (CHR ''<'')]), Str ''</li>'', Opt (Lit LF)]))"

text \<open>\<open>/!\[([^\]]*)\]\(([^)]+)\)/g\<close> and \<open>/\[([^\]]+)\]\(([^)]+)\)/g\<close>\<close>

definition imageRegex :: regex where
  "imageRegex =
     seqs [Str ''!['', Grp 1 (Star (NCls [CChar (CHR '']'')])), Str '']('',
           Grp 2 (Plus (NCls [CChar (CHR '')'')])), Lit (CHR '')'')]"

definition linkRegex :: regex where
  "linkRegex =
     seqs [Lit (CHR ''[''), Grp 1 (Plus (NCls [CChar (CHR '']'')])), Str '']('',
           Grp 2 (Plus (NCls [CChar (CHR '')'')])), Lit (CHR '')'')]"

text \<open>\<open>/\*\*(.+?)\*\*/g\<close>, \<open>/__(.+?)__/g\<close>, \<open>/\*(.+?)\*/g\<close>, \<open>/_(.+?)_/g\<close>, \<open>/~~(.+?)~~/g\<close>\<close>

definition spanRegex :: "string \<Rightarrow> regex" where
  "spanRegex marker = seqs [Str marker, Grp 1 (PlusLazy Dot), Str marker]"

text \<open>\<open>/  \n/g\<close> and \<open>/([^>\n])\n([^<\n])/g\<close>\<close>

definition hardBreakRegex :: regex where
  \<open>hardBreakRegex = Str ''  \<newline>''\<close>

definition softBreakRegex :: regex where
  "softBreakRegex =
     seqs [Grp 1 (NCls [CChar (CHR ''>''), CChar LF]), Lit LF,
           Grp 2 (NCls [CChar (CHR ''<''), CChar LF])]"

text \<open>Lines 184 to 189: the three list rules.\<close>

definition bulletItems :: "string \<Rightarrow> string" where
  "bulletItems html = replaceAll True bulletRegex bulletCallback html"

definition orderedItems :: "string \<Rightarrow> string" where
  "orderedItems html = replaceAll True orderedRegex (\<lambda>m cs. wrapTag ''li'' (cap cs 1)) html"

definition wrapListRuns :: "string \<Rightarrow> string" where
  "wrapListRuns html = replaceAll False listRunRegex (\<lambda>m cs. wrapTag ''ul'' m) html"

text \<open>Lines 194 to 198: bold, italic and strikethrough.\<close>

definition emphasis :: "string \<Rightarrow> string" where
  "emphasis html =
     (let html = replaceAll False (spanRegex ''**'') (\<lambda>m cs. wrapTag ''strong'' (cap cs 1)) html;
          html = replaceAll False (spanRegex ''__'') (\<lambda>m cs. wrapTag ''strong'' (cap cs 1)) html;
          html = replaceAll False (spanRegex ''*'') (\<lambda>m cs. wrapTag ''em'' (cap cs 1)) html;
          html = replaceAll False (spanRegex ''_'') (\<lambda>m cs. wrapTag ''em'' (cap cs 1)) html;
          html = replaceAll False (spanRegex ''~~'') (\<lambda>m cs. wrapTag ''del'' (cap cs 1)) html
      in html)"

text \<open>Lines 205 and 206: each stored fragment replaces the first occurrence of its token.\<close>

fun restore :: "string \<Rightarrow> nat \<Rightarrow> string list \<Rightarrow> string \<Rightarrow> string" where
  "restore name index [] html = html"
| "restore name index (code # codes) html =
     restore name (Suc index) codes
       (replaceFirst (''%%'' @ name @ ''_'' @ showNat index @ ''%%'') code html)"

definition markdownToHTMLStr :: "string \<Rightarrow> string" where
  \<open>markdownToHTMLStr markdown =
     (let html = markdown;
          (html, codeBlocks) = replaceAllS False codeBlockRegex codeBlockCallback html [];
          (html, inlineCodes) = replaceAllS False inlineCodeRegex inlineCodeCallback html [];
          html = parseMarkdownTables (JStr html);
          html = replaceAll True hrRegex (\<lambda>m cs. ''<hr>'') html;
          html = replaceAll True (lineRegex ''###### '') (\<lambda>m cs. wrapTag ''h6'' (cap cs 1)) html;
          html = replaceAll True (lineRegex ''##### '') (\<lambda>m cs. wrapTag ''h5'' (cap cs 1)) html;
          html = replaceAll True (lineRegex ''#### '') (\<lambda>m cs. wrapTag ''h4'' (cap cs 1)) html;
          html = replaceAll True (lineRegex ''### '') (\<lambda>m cs. wrapTag ''h3'' (cap cs 1)) html;
          html = replaceAll True (lineRegex ''## '') (\<lambda>m cs. wrapTag ''h2'' (cap cs 1)) html;
          html = replaceAll True (lineRegex ''# '') (\<lambda>m cs. wrapTag ''h1'' (cap cs 1)) html;
          html = replaceAll True (lineRegex ''> '') (\<lambda>m cs. wrapTag ''blockquote'' (cap cs 1)) html;
          html = replaceAll False quoteJoinRegex (\<lambda>m cs. ''\<newline>'') html;
          html = bulletItems html;
          html = orderedItems html;
          html = wrapListRuns html;
          html = replaceAll False imageRegex
                   (\<lambda>m cs. ''<img src="'' @ cap cs 2 @ ''" alt="'' @ cap cs 1
                              @ ''" style="max-width:100%;">'') html;
          html = replaceAll False linkRegex
                   (\<lambda>m cs. ''<a href="'' @ cap cs 2 @ ''" target="_blank" rel="noopener noreferrer">''
                              @ cap cs 1 @ ''</a>'') html;
          html = emphasis html;
          html = replaceAll False hardBreakRegex (\<lambda>m cs. ''<br>\<newline>'') html;
          html = replaceAll False softBreakRegex
                   (\<lambda>m cs. cap cs 1 @ ''<br>\<newline>'' @ cap cs 2) html;
          html = restore ''INLINECODE'' 0 inlineCodes html;
          html = restore ''CODEBLOCK'' 0 codeBlocks html
      in html)\<close>

definition markdownToHTML :: "jsval \<Rightarrow> string" where
  "markdownToHTML markdown =
     (case guardString markdown of None \<Rightarrow> [] | Some m \<Rightarrow> markdownToHTMLStr m)"


section \<open>The document tree\<close>

text \<open>
  The sanitizer works on the tree that the browser builds from a string. A node is an
  element with its name, attributes and children, a text node or a comment.
\<close>

datatype node = Element string "(string \<times> string) list" "node list" | Text string | Comment string

text \<open>\<open>textContent\<close> of a node: the data of the text nodes below it, in tree order.\<close>

fun textContent :: "node \<Rightarrow> string" where
  "textContent (Element tag attrs children) = concat (map textContent children)"
| "textContent (Text d) = d"
| "textContent (Comment d) = []"

definition toLowerChar :: "char \<Rightarrow> char" where
  "toLowerChar c =
     (let n = (of_char c :: nat)
      in if (65 \<le> n \<and> n \<le> 90) \<or> (192 \<le> n \<and> n \<le> 222 \<and> n \<noteq> 215) then char_of (n + 32) else c)"

definition toLowerCase :: "string \<Rightarrow> string" where
  "toLowerCase s = map toLowerChar s"

subsection \<open>Serialization\<close>

text \<open>
  Reading \<open>innerHTML\<close> serializes the children of an element: text is escaped unless its
  parent is a raw text element, attribute values are escaped and double-quoted, and a
  void element has neither children nor end tag.
\<close>

definition NBSP :: char where
  "NBSP = CHR 0xA0"

definition escapeTextChar :: "char \<Rightarrow> string" where
  "escapeTextChar c =
     (if c = CHR ''&'' then ''&amp;''
      else if c = NBSP then ''&nbsp;''
      else if c = CHR ''<'' then ''&lt;''
      else if c = CHR ''>'' then ''&gt;''
      else [c])"

definition escapeText :: "string \<Rightarrow> string" where
  "escapeText d = concat (map escapeTextChar d)"

definition escapeAttrChar :: "char \<Rightarrow> string" where
  "escapeAttrChar c =
     (if c = CHR ''&'' then ''&amp;''
      else if c = NBSP then ''&nbsp;''
      else if c = CHR 0x22 then ''&quot;''
      else [c])"

definition escapeAttr :: "string \<Rightarrow> string" where
  "escapeAttr v = concat (map escapeAttrChar v)"

definition voidElements :: "string list" where
  "voidElements = [''area'', ''base'', ''basefont'', ''bgsound'', ''br'', ''col'', ''embed'',
     ''frame'', ''hr'', ''img'', ''input'', ''keygen'', ''link'', ''meta'', ''param'', ''source'',
     ''track'', ''wbr'']"

definition rawTextElements :: "string list" where
  "rawTextElements = [''style'', ''script'', ''xmp'', ''iframe'', ''noembed'', ''noframes'',
     ''plaintext'', ''noscript'']"

definition serializeAttr :: "string \<times> string \<Rightarrow> string" where
  \<open>serializeAttr attr = '' '' @ fst attr @ ''="'' @ escapeAttr (snd attr) @ ''"''\<close>

fun serialize :: "string \<Rightarrow> node \<Rightarrow> string" where
  "serialize parent (Text d) = (if parent \<in> set rawTextElements then d else escapeText d)"
| "serialize parent (Comment d) = ''<!--'' @ d @ ''-->''"
| "serialize parent (Element tag attrs children) =
     ''<'' @ tag @ concat (map serializeAttr attrs) @ ''>''
     @ (if tag \<in> set voidElements then []
        else concat (map (serialize tag) children) @ ''</'' @ tag @ ''>'')"

fun innerHTML :: "node \<Rightarrow> string" where
  "innerHTML (Element tag attrs children) =
     (if tag \<in> set voidElements then [] else concat (map (serialize tag) children))"
| "innerHTML n = []"

subsection \<open>Parsing\<close>

text \<open>
  Writing \<open>innerHTML\<close> runs the browser's HTML parser, which is not part of the
  repository. The model below is the fragment of that parser which the examples of this
  development need, after the tokenizer and the tree construction rules of the HTML
  standard; on every input outside the fragment it answers \<open>None\<close>. The fragment: text
  with the character references \<open>&amp;\<close>, \<open>&lt;\<close>, \<open>&gt;\<close>, \<open>&quot;\<close> and \<open>&nbsp;\<close>; start
  tags whose attribute values are double-quoted; end tags that close the element
  opened last; the elements listed in \<open>plainElements\<close>, headings, list items directly
  in a list, anchors that are not nested, \<open>pre\<close> (a line feed right after its start tag
  is dropped), the void elements \<open>br\<close>, \<open>hr\<close> and \<open>img\<close>, and \<open>table\<close> with \<open>caption\<close>
  and text as its only content (text that is not white space is moved in front of the
  table, as foster parenting does). Input with CR or NUL is outside the fragment.
\<close>

datatype token = Character char | StartTag string "(string \<times> string) list" | EndTag string

datatype tstate =
    Data
  | CharRef string
  | TagOpen
  | EndTagOpen
  | TagName bool string
  | BeforeAttrName bool string "(string \<times> string) list"
  | AttrName bool string "(string \<times> string) list" string
  | BeforeAttrValue bool string "(string \<times> string) list" string
  | AttrValue bool string "(string \<times> string) list" string string
  | AfterAttrValue bool string "(string \<times> string) list"

definition isAlpha :: "char \<Rightarrow> bool" where
  "isAlpha c = ((97 \<le> (of_char c :: nat) \<and> (of_char c :: nat) \<le> 122)
                \<or> (65 \<le> (of_char c :: nat) \<and> (of_char c :: nat) \<le> 90))"

definition isAlnum :: "char \<Rightarrow> bool" where
  "isAlnum c = (isAlpha c \<or> isDigit c)"

definition isHtmlSpace :: "char \<Rightarrow> bool" where
  "isHtmlSpace c = (c \<in> set [CHR 0x09, CHR 0x0A, CHR 0x0C, CHR 0x20])"

definition decodeRef :: "string \<Rightarrow> char option" where
  "decodeRef name =
     (if name = ''amp'' then Some (CHR ''&'')
      else if name = ''lt'' then Some (CHR ''<'')
      else if name = ''gt'' then Some (CHR ''>'')
      else if name = ''quot'' then Some (CHR 0x22)
      else if name = ''nbsp'' then Some NBSP
      else None)"

definition emitTag :: "bool \<Rightarrow> string \<Rightarrow> (string \<times> string) list \<Rightarrow> token option" where
  "emitTag isEnd name attrs =
     (if isEnd then (if attrs = [] then Some (EndTag (rev name)) else None)
      else Some (StartTag (rev name) (rev attrs)))"

text \<open>A second attribute of the same name is dropped.\<close>

definition addAttr :: "(string \<times> string) list \<Rightarrow> string \<Rightarrow> string \<Rightarrow> (string \<times> string) list" where
  "addAttr attrs name val =
     (if rev name \<in> fst ` set attrs then attrs else (rev name, rev val) # attrs)"

definition emitThen :: "token option \<Rightarrow> token list option \<Rightarrow> token list option" where
  "emitThen t rest =
     (case t of None \<Rightarrow> None
      | Some tok \<Rightarrow> (case rest of None \<Rightarrow> None | Some toks \<Rightarrow> Some (tok # toks)))"

fun tokenize :: "tstate \<Rightarrow> string \<Rightarrow> token list option" where
  "tokenize Data [] = Some []"
| "tokenize st [] = None"
| "tokenize Data (c # cs) =
     (if c = CHR ''<'' then tokenize TagOpen cs
      else if c = CHR ''&'' then tokenize (CharRef []) cs
      else emitThen (Some (Character c)) (tokenize Data cs))"
| "tokenize (CharRef acc) (c # cs) =
     (if c = CHR '';'' then emitThen (map_option Character (decodeRef (rev acc))) (tokenize Data cs)
      else if isAlnum c then tokenize (CharRef (c # acc)) cs
      else None)"
| "tokenize TagOpen (c # cs) =
     (if c = CHR ''/'' then tokenize EndTagOpen cs
      else if isAlpha c then tokenize (TagName False [toLowerChar c]) cs
      else None)"
| "tokenize EndTagOpen (c # cs) =
     (if isAlpha c then tokenize (TagName True [toLowerChar c]) cs else None)"
| "tokenize (TagName isEnd name) (c # cs) =
     (if isHtmlSpace c then tokenize (BeforeAttrName isEnd name []) cs
      else if c = CHR ''>'' then emitThen (emitTag isEnd name []) (tokenize Data cs)
      else if isAlnum c then tokenize (TagName isEnd (toLowerChar c # name)) cs
      else None)"
| "tokenize (BeforeAttrName isEnd name attrs) (c # cs) =
     (if isHtmlSpace c then tokenize (BeforeAttrName isEnd name attrs) cs
      else if c = CHR ''>'' then emitThen (emitTag isEnd name attrs) (tokenize Data cs)
      else if isAlpha c then tokenize (AttrName isEnd name attrs [toLowerChar c]) cs
      else None)"
| "tokenize (AttrName isEnd name attrs an) (c # cs) =
     (if c = CHR ''='' then tokenize (BeforeAttrValue isEnd name attrs an) cs
      else if c = CHR ''>'' then emitThen (emitTag isEnd name (addAttr attrs an [])) (tokenize Data cs)
      else if isAlnum c \<or> c = CHR ''-'' then tokenize (AttrName isEnd name attrs (toLowerChar c # an)) cs
      else None)"
| "tokenize (BeforeAttrValue isEnd name attrs an) (c # cs) =
     (if c = CHR 0x22 then tokenize (AttrValue isEnd name attrs an []) cs else None)"
| "tokenize (AttrValue isEnd name attrs an av) (c # cs) =
     (if c = CHR 0x22 then tokenize (AfterAttrValue isEnd name (addAttr attrs an av)) cs
      else if c = CHR ''&'' then None
      else tokenize (AttrValue isEnd name attrs an (c # av)) cs)"
| "tokenize (AfterAttrValue isEnd name attrs) (c # cs) =
     (if isHtmlSpace c then tokenize (BeforeAttrName isEnd name attrs) cs
      else if c = CHR ''>'' then emitThen (emitTag isEnd name attrs) (tokenize Data cs)
      else None)"

text \<open>
  Tree construction keeps the stack of open elements, innermost first; each entry holds
  the children built so far in reverse. The bottom entry stands for the element whose
  \<open>innerHTML\<close> is written and has the empty name.
\<close>

type_synonym frame = "string \<times> (string \<times> string) list \<times> node list"

definition plainElements :: "string list" where
  "plainElements = [''span'', ''del'', ''div'', ''ul'', ''ol'', ''blockquote'', ''section'',
     ''b'', ''i'', ''u'', ''strong'', ''em'', ''code'']"

definition headingElements :: "string list" where
  "headingElements = [''h1'', ''h2'', ''h3'', ''h4'', ''h5'', ''h6'']"

fun appendText :: "string \<Rightarrow> node list \<Rightarrow> node list" where
  "appendText [] rchildren = rchildren"
| "appendText t (Text d # rchildren) = Text (d @ t) # rchildren"
| "appendText t rchildren = Text t # rchildren"

fun addChild :: "node \<Rightarrow> frame list \<Rightarrow> frame list option" where
  "addChild n [] = None"
| "addChild n ((name, attrs, rchildren) # stack) = Some ((name, attrs, n # rchildren) # stack)"

fun addText :: "string \<Rightarrow> frame list \<Rightarrow> frame list option" where
  "addText t [] = None"
| "addText t ((name, attrs, rchildren) # stack) = Some ((name, attrs, appendText t rchildren) # stack)"

fun popFrame :: "frame list \<Rightarrow> frame list option" where
  "popFrame ((name, attrs, rchildren) # parent # stack) =
     addChild (Element name attrs (rev rchildren)) (parent # stack)"
| "popFrame _ = None"

text \<open>
  The text met directly inside a table is collected; when the next tag arrives it goes
  into the table if it is all white space and in front of the table otherwise.
\<close>

fun flushTableText :: "string \<Rightarrow> frame list \<Rightarrow> frame list option" where
  "flushTableText pending (table # stack) =
     (if list_all isHtmlSpace pending then addText pending (table # stack)
      else map_option (Cons table) (addText pending stack))"
| "flushTableText pending [] = None"

fun closeAll :: "frame list \<Rightarrow> node list option" where
  "closeAll [] = None"
| "closeAll [(name, attrs, rchildren)] = Some (rev rchildren)"
| "closeAll (f # g # stack) = (case popFrame (f # g # stack) of None \<Rightarrow> None | Some st \<Rightarrow> closeAll st)"

definition currentName :: "frame list \<Rightarrow> string" where
  "currentName stack = (case stack of [] \<Rightarrow> [] | (name, attrs, rchildren) # _ \<Rightarrow> name)"

fun startTagInBody :: "string \<Rightarrow> (string \<times> string) list \<Rightarrow> frame list \<Rightarrow> (frame list \<times> bool) option" where
  "startTagInBody name attrs stack =
     (if name \<in> set plainElements \<or> name = ''table'' then Some ((name, attrs, []) # stack, False)
      else if name \<in> set headingElements
        then (if currentName stack \<in> set headingElements then None
              else Some ((name, attrs, []) # stack, False))
      else if name = ''li''
        then (if currentName stack = ''ul'' \<or> currentName stack = ''ol''
              then Some ((name, attrs, []) # stack, False) else None)
      else if name = ''a''
        then (if ''a'' \<in> set (map fst stack) then None else Some ((name, attrs, []) # stack, False))
      else if name = ''pre'' then Some ((name, attrs, []) # stack, True)
      else if name = ''br'' \<or> name = ''hr'' \<or> name = ''img''
        then map_option (\<lambda>st. (st, False)) (addChild (Element name attrs []) stack)
      else None)"

fun build :: "frame list \<Rightarrow> string \<Rightarrow> bool \<Rightarrow> token list \<Rightarrow> node list option" where
  "build stack pending skipLF [] =
     (if currentName stack = ''table''
      then (case flushTableText pending stack of None \<Rightarrow> None | Some st \<Rightarrow> closeAll st)
      else closeAll stack)"
| "build stack pending skipLF (Character c # toks) =
     (if currentName stack = ''table'' then build stack (pending @ [c]) False toks
      else if skipLF \<and> c = LF then build stack [] False toks
      else (case addText [c] stack of None \<Rightarrow> None | Some st \<Rightarrow> build st [] False toks))"
| "build stack pending skipLF (StartTag name attrs # toks) =
     (if currentName stack = ''table''
      then (if name = ''caption''
            then (case flushTableText pending stack of None \<Rightarrow> None
                  | Some st \<Rightarrow> build ((name, attrs, []) # st) [] False toks)
            else None)
      else (case startTagInBody name attrs stack of None \<Rightarrow> None
            | Some (st, skip) \<Rightarrow> build st [] skip toks))"
| "build stack pending skipLF (EndTag name # toks) =
     (if name \<noteq> currentName stack \<or> name = [] then None
      else if name = ''table''
        then (case flushTableText pending stack of None \<Rightarrow> None
              | Some st \<Rightarrow> (case popFrame st of None \<Rightarrow> None | Some st' \<Rightarrow> build st' [] False toks))
      else (case popFrame stack of None \<Rightarrow> None | Some st \<Rightarrow> build st [] False toks))"

definition parseHTML :: "string \<Rightarrow> node list option" where
  "parseHTML s =
     (if CHR 0x0D \<in> set s \<or> CHR 0x00 \<in> set s then None
      else (case tokenize Data s of None \<Rightarrow> None
            | Some toks \<Rightarrow> build [([], [], [])] [] False toks))"

section \<open>The sanitizer\<close>

definition allowedTags :: "string list" where
  "allowedTags = [''b'', ''i'', ''u'', ''strong'', ''em'', ''del'', ''br'', ''p'', ''div'', ''span'',
     ''ul'', ''ol'', ''li'', ''a'', ''h1'', ''h2'', ''h3'', ''h4'', ''h5'', ''h6'',
     ''table'', ''thead'', ''tbody'', ''tr'', ''td'', ''th'',
     ''blockquote'', ''code'', ''pre'', ''hr'', ''img'']"

text \<open>The table of lines 221 to 225; \<open>''*''\<close> is the entry for every tag.\<close>

definition allowedAttributes :: "(string \<times> string list) list" where
  "allowedAttributes = [(''a'', [''href'', ''target'', ''rel'']),
     (''img'', [''src'', ''alt'', ''style'', ''width'', ''height'']),
     (''*'', [''class'', ''style'', ''colspan'', ''rowspan''])]"

text \<open>The condition of line 243 under which an attribute is removed.\<close>

definition dangerousAttr :: "string \<times> string \<Rightarrow> bool" where
  "dangerousAttr attr =
     (let name = toLowerCase (fst attr); val = toLowerCase (snd attr)
      in startsWith name ''on'' \<or> startsWith val ''javascript:''
         \<or> (name = ''src'' \<and> startsWith val ''data:'' \<and> \<not> startsWith val ''data:image/''))"

text \<open>
  The body of the loop of \<open>cleanNode\<close> for one child: an element whose tag is not allowed
  is replaced by a text node of its text content; an allowed element loses its dangerous
  attributes and is cleaned in turn. Text and comments stay.
\<close>

fun cleanChild :: "node \<Rightarrow> node" where
  "cleanChild (Element tag attrs children) =
     (if toLowerCase tag \<notin> set allowedTags then Text (textContent (Element tag attrs children))
      else Element tag (filter (\<lambda>attr. \<not> dangerousAttr attr) attrs) (map cleanChild children))"
| "cleanChild n = n"

fun cleanNode :: "node \<Rightarrow> node" where
  "cleanNode (Element tag attrs children) = Element tag attrs (map cleanChild children)"
| "cleanNode n = n"

text \<open>
  What the setter of \<open>innerHTML\<close> makes of a value that is not a string: \<open>null\<close> is the
  empty string, everything else is converted as \<open>String(v)\<close> does.
\<close>

definition showInt :: "int \<Rightarrow> string" where
  "showInt n = (if n < 0 then ''-'' @ showNat (nat (- n)) else showNat (nat n))"

fun toDOMString :: "jsval \<Rightarrow> string" where
  "toDOMString JNull = []"
| "toDOMString JUndefined = ''undefined''"
| "toDOMString (JBool b) = (if b then ''true'' else ''false'')"
| "toDOMString (JNum n) = showInt n"
| "toDOMString (JStr s) = s"

definition sanitizeHTML :: "jsval \<Rightarrow> string option" where
  "sanitizeHTML html =
     (case parseHTML (toDOMString html) of None \<Rightarrow> None
      | Some children \<Rightarrow> Some (innerHTML (cleanNode (Element ''div'' [] children))))"

text \<open>\<open>div.textContent = text; return div.innerHTML\<close>\<close>

definition escapeHTML :: "string \<Rightarrow> string" where
  "escapeHTML text = innerHTML (Element ''div'' [] (if text = [] then [] else [Text text]))"

definition processReplyContent :: "jsval \<Rightarrow> string option" where
  "processReplyContent text =
     (case guardString text of None \<Rightarrow> Some []
      | Some t \<Rightarrow> (let html = markdownToHTML (JStr t) in sanitizeHTML (JStr html)))"

section \<open>The renderer\<close>

datatype role = User | Assistant

record message =
  m_id :: string
  m_role :: role
  m_text :: string
  m_ts :: int
  m_isHtml :: bool

text \<open>Lines 305 to 309: the markup written into the bubble of a message.\<close>

definition bubbleHTML :: "message \<Rightarrow> string option" where
  "bubbleHTML m =
     (let isUser = (m_role m = User)
      in if isUser then Some (escapeHTML (m_text m)) else processReplyContent (JStr (m_text m)))"


section \<open>Notions used by the properties\<close>

text \<open>The names of the elements of a tree.\<close>

fun elementTags :: "node \<Rightarrow> string list" where
  "elementTags (Element tag attrs children) = tag # concat (map elementTags children)"
| "elementTags n = []"

text \<open>
  Membership of an attribute name in the entry of \<open>allowedAttributes\<close> for a tag or in
  its entry for every tag.
\<close>

definition attributeAllowed :: "string \<Rightarrow> string \<Rightarrow> bool" where
  "attributeAllowed tag name =
     (name \<in> set (case map_of allowedAttributes tag of None \<Rightarrow> [] | Some names \<Rightarrow> names)
      \<or> name \<in> set (case map_of allowedAttributes ''*'' of None \<Rightarrow> [] | Some names \<Rightarrow> names))"

text \<open>The match that the matcher lists first for a regular expression at a state.\<close>

definition firstIs :: "bool \<Rightarrow> regex \<Rightarrow> mstate \<Rightarrow> mstate \<Rightarrow> bool" where
  "firstIs ml r st y = (\<exists>tl. matchR ml r st = y # tl)"

text \<open>Lines joined by line feeds, and the shapes of list text that the properties speak of.\<close>

fun joinLines :: "string list \<Rightarrow> string" where
  "joinLines [] = []"
| "joinLines [l] = l"
| "joinLines (l # m # ls) = l @ LF # joinLines (m # ls)"

text \<open>
  An ordered line \<open>N. text\<close> is given by its number and its text; the number is a
  non-empty run of digits, the text is not empty and has no line terminator.
\<close>

definition numbered :: "string \<times> string \<Rightarrow> string" where
  "numbered item = fst item @ ''. '' @ snd item"

definition okItem :: "string \<times> string \<Rightarrow> bool" where
  "okItem item = (fst item \<noteq> [] \<and> list_all isDigit (fst item)
                   \<and> snd item \<noteq> [] \<and> \<not> list_ex isLineTerminator (snd item))"

text \<open>The group that \<open>listRunRegex\<close> repeats, and a run of list-item elements.\<close>

definition itemRegex :: regex where
  "itemRegex = Grp 1 (seqs [Str ''<li>'', Star (NCls [CChar (CHR ''<'')]), Str ''</li>'', Opt (Lit LF)])"

definition liRun :: "string list \<Rightarrow> string" where
  "liRun cs = joinLines (map (wrapTag ''li'') cs)"

text \<open>
  One row of a candidate block, \<open>\|[^\n]+\|\s*\n\<close>: the group that
  \<^const>\<open>tableRegex\<close> repeats.
\<close>

definition rowRegex :: regex where
  "rowRegex = seqs [Lit (CHR ''|''), Plus (NCls [CChar LF]), Lit (CHR ''|''), Star (Cls [CSpace]), Lit LF]"

text \<open>
  \<open>rowShape u r y\<close>: the text \<open>u\<close> starts with the row \<open>r\<close>, taken the way the greedy
  quantifiers take it, and \<open>y\<close> is what follows the row.
\<close>

definition rowShape :: "string \<Rightarrow> string \<Rightarrow> string \<Rightarrow> bool" where
  "rowShape u r y = (\<exists>X Ws. r = CHR ''|'' # X @ CHR ''|'' # Ws @ [LF] \<and> u = r @ y \<and> X \<noteq> [] \<and> LF \<notin> set X
      \<and> (\<forall>c\<in>set Ws. isSpace c) \<and> LF \<notin> set (takeWhile isSpace y))"

text \<open>What is left of the text after the first row the matcher finds at its start, if any.\<close>

definition rowRest :: "string \<Rightarrow> string option" where
  "rowRest u = (case matchR False rowRegex ([], u, []) of [] \<Rightarrow> None | x # _ \<Rightarrow> Some (fst (snd x)))"

text \<open>What is left after all the rows at the start of the text, and the rows themselves.\<close>

function rowsRest :: "string \<Rightarrow> string" where
  "rowsRest u = (case rowRest u of None \<Rightarrow> u
                 | Some y \<Rightarrow> if length y < length u then rowsRest y else u)"
  by pat_completeness auto

termination
  by (relation "measure length") auto

declare rowsRest.simps [simp del]

definition block :: "string \<Rightarrow> string" where
  "block u = take (length u - length (rowsRest u)) u"

text \<open>The white space at the start of the text holds no newline.\<close>

definition noLFws :: "string \<Rightarrow> bool" where
  "noLFws y = (LF \<notin> set (takeWhile isSpace y))"

text \<open>The replacement loop of \<^const>\<open>parseMarkdownTablesStr\<close>, started inside the text.\<close>

abbreviation scan :: "string \<Rightarrow> string \<Rightarrow> string" where
  "scan b s \<equiv> replaceFrom False tableRegex tableCallback b s"

text \<open>The first line of a text, and whether a newline ends it.\<close>

definition firstLine :: "string \<Rightarrow> string \<times> bool" where
  "firstLine v = (takeWhile (\<lambda>x. x \<noteq> LF) v, LF \<in> set v)"

definition rowLine :: "string \<times> bool \<Rightarrow> bool" where
  "rowLine f = (snd f \<and> (\<exists>X Wl. fst f = CHR ''|'' # X @ CHR ''|'' # Wl \<and> X \<noteq> [] \<and> (\<forall>c\<in>set Wl. isSpace c)))"

text \<open>Every newline but the last is followed by \<open><\<close>; lines of tags.\<close>

fun okLF :: "string \<Rightarrow> bool" where
  "okLF [] = True"
| "okLF [c] = True"
| "okLF (c # d # s) = ((c = LF \<longrightarrow> d = CHR ''<'') \<and> okLF (d # s))"

definition tagLines :: "string \<Rightarrow> bool" where
  "tagLines h = ((h = [] \<or> (hd h = CHR ''<'' \<and> last h = LF)) \<and> okLF h)"














section \<open>Rules for the matcher\<close>

text \<open>
  The equations of the repetition and of the replacement loops unfold without end; they
  are applied by hand.
\<close>

declare matchR.simps(11) [simp del]
declare replaceFrom.simps [simp del]
declare replaceFromS.simps [simp del]




lemma rev_upt_Suc: "lo \<le> n \<Longrightarrow> rev [lo..<Suc n] = n # rev [lo..<n]"
  by simp

lemma rep_atom_greedy:
  assumes atom: "\<And>st. matchR ml r st = consume p st"
  shows "matchR ml (Rep lo None True r) (b, s, cs)
         = map (\<lambda>k. (rev (take k s) @ b, drop k s, cs)) (rev [lo..<Suc (length (takeWhile p s))])"
proof (induction s arbitrary: lo b)
  case Nil
  show ?case by (subst matchR.simps(11)) (simp add: atom)
next
  case (Cons x xs)
  show ?case
  proof (cases "p x")
    case False
    then show ?thesis by (subst matchR.simps(11)) (simp add: atom)
  next
    case True
    let ?n = "length (takeWhile p xs)"
    have more: "matchR ml (Rep (lo - 1) None True r) (x # b, xs, cs)
          = map (\<lambda>k. (rev (take k xs) @ x # b, drop k xs, cs)) (rev [lo - 1..<Suc ?n])"
      by (rule Cons.IH)
    have shift: "map (\<lambda>k. (rev (take k xs) @ x # b, drop k xs, cs)) (rev [lo - 1..<Suc ?n])
          = map (\<lambda>k. (rev (take k (x # xs)) @ b, drop k (x # xs), cs)) (rev [Suc (lo - 1)..<Suc (Suc ?n)])"
      by (simp add: map_Suc_upt[symmetric] rev_map del: upt_Suc)
    show ?thesis
    proof (cases "0 < lo")
      case True
      then have "Suc (lo - 1) = lo" by simp
      with True \<open>p x\<close> more shift show ?thesis
        by (subst matchR.simps(11)) (simp add: atom decHi_def del: upt_Suc)
    next
      case False
      then have lo: "lo = 0" by simp
      have "rev [0..<Suc (Suc ?n)] = rev [Suc 0..<Suc (Suc ?n)] @ [0]"
        by (simp add: upt_conv_Cons del: upt_Suc)
      with lo \<open>p x\<close> more shift show ?thesis
        by (subst matchR.simps(11)) (simp add: atom decHi_def del: upt_Suc)
    qed
  qed
qed

lemma rep_atom_lazy:
  assumes atom: "\<And>st. matchR ml r st = consume p st"
  shows "matchR ml (Rep lo None False r) (b, s, cs)
         = map (\<lambda>k. (rev (take k s) @ b, drop k s, cs)) [lo..<Suc (length (takeWhile p s))]"
proof (induction s arbitrary: lo b)
  case Nil
  show ?case by (subst matchR.simps(11)) (simp add: atom)
next
  case (Cons x xs)
  show ?case
  proof (cases "p x")
    case False
    then show ?thesis by (subst matchR.simps(11)) (simp add: atom)
  next
    case True
    let ?n = "length (takeWhile p xs)"
    have more: "matchR ml (Rep (lo - 1) None False r) (x # b, xs, cs)
          = map (\<lambda>k. (rev (take k xs) @ x # b, drop k xs, cs)) [lo - 1..<Suc ?n]"
      by (rule Cons.IH)
    have shift: "map (\<lambda>k. (rev (take k xs) @ x # b, drop k xs, cs)) [lo - 1..<Suc ?n]
          = map (\<lambda>k. (rev (take k (x # xs)) @ b, drop k (x # xs), cs)) [Suc (lo - 1)..<Suc (Suc ?n)]"
      by (simp add: map_Suc_upt[symmetric] del: upt_Suc)
    show ?thesis
    proof (cases "0 < lo")
      case True
      then have "Suc (lo - 1) = lo" by simp
      with True \<open>p x\<close> more shift show ?thesis
        by (subst matchR.simps(11)) (simp add: atom decHi_def del: upt_Suc)
    next
      case False
      then have lo: "lo = 0" by simp
      have "[0..<Suc (Suc ?n)] = 0 # [Suc 0..<Suc (Suc ?n)]"
        by (simp add: upt_conv_Cons del: upt_Suc)
      with lo \<open>p x\<close> more shift show ?thesis
        by (subst matchR.simps(11)) (simp add: atom decHi_def del: upt_Suc)
    qed
  qed
qed

lemma opt_atom:
  assumes atom: "\<And>st. matchR ml r st = consume p st"
  shows "matchR ml (Rep 0 (Some 1) True r) (b, s, cs)
         = (case s of [] \<Rightarrow> [(b, s, cs)]
            | x # xs \<Rightarrow> if p x then [(x # b, xs, cs), (b, s, cs)] else [(b, s, cs)])"
  by (cases s) (simp_all add: matchR.simps(11) atom decHi_def)

lemma firstIs_seq: "firstIs ml r1 st x \<Longrightarrow> firstIs ml r2 x y \<Longrightarrow> firstIs ml (Seq r1 r2) st y"
  by (auto simp: firstIs_def)

lemma firstIs_lit: "firstIs ml (Lit c) (b, c # s, cs) (c # b, s, cs)"
  by (simp add: firstIs_def)

lemma firstIs_str: "firstIs ml (Str w) (b, w @ s, cs) (rev w @ b, s, cs)"
  by (simp add: firstIs_def)

lemma firstIs_bol: "atBol ml b \<Longrightarrow> firstIs ml Bol (b, s, cs) (b, s, cs)"
  by (simp add: firstIs_def)

lemma firstIs_eol: "atEol ml s \<Longrightarrow> firstIs ml Eol (b, s, cs) (b, s, cs)"
  by (simp add: firstIs_def)

lemma firstIs_alt1: "firstIs ml r1 st y \<Longrightarrow> firstIs ml (Alt r1 r2) st y"
  by (auto simp: firstIs_def)

lemma firstIs_alt2: "matchR ml r1 st = [] \<Longrightarrow> firstIs ml r2 st y \<Longrightarrow> firstIs ml (Alt r1 r2) st y"
  by (auto simp: firstIs_def)

lemma firstIs_grp:
  "firstIs ml r (b, s, cs) (b', s', cs')
   \<Longrightarrow> firstIs ml (Grp n r) (b, s, cs) (b', s', (n, take (length s - length s') s) # cs')"
  by (auto simp: firstIs_def)

lemma firstIs_rep_atom:
  assumes atom: "\<And>st. matchR ml r st = consume p st"
    and t: "\<forall>x\<in>set t. p x" and rest: "rest = [] \<or> \<not> p (hd rest)" and lo: "lo \<le> length t"
  shows "firstIs ml (Rep lo None True r) (b, t @ rest, cs) (rev t @ b, rest, cs)"
proof -
  have "takeWhile p (t @ rest) = t"
    using t rest by (cases rest) (auto simp: takeWhile_append2)
  moreover have "rev [lo..<Suc (length t)] = length t # rev [lo..<length t]"
    using lo by simp
  ultimately show ?thesis
    by (simp add: firstIs_def rep_atom_greedy[OF atom] del: upt_Suc)
qed

lemma firstIs_opt_take: "firstIs ml (Rep 0 (Some 1) True (Lit c)) (b, c # s, cs) (c # b, s, cs)"
  unfolding firstIs_def by (subst opt_atom[OF matchR.simps(1)]) simp

lemma firstIs_opt_skip:
  "s = [] \<or> hd s \<noteq> c \<Longrightarrow> firstIs ml (Rep 0 (Some 1) True (Lit c)) (b, s, cs) (b, s, cs)"
  unfolding firstIs_def by (subst opt_atom[OF matchR.simps(1)]) (cases s; auto)

lemma firstIs_rep_step:
  assumes "firstIs ml r (b, s, cs) (b', s', cs')" "length s' < length s"
    "firstIs ml (Rep (lo - 1) None True r) (b', s', cs') y"
  shows "firstIs ml (Rep lo None True r) (b, s, cs) y"
  using assms by (subst firstIs_def, subst matchR.simps(11)) (auto simp: firstIs_def decHi_def Let_def)

lemma firstIs_rep_stop:
  "matchR ml r (b, s, cs) = [] \<Longrightarrow> firstIs ml (Rep 0 None True r) (b, s, cs) (b, s, cs)"
  by (subst firstIs_def, subst matchR.simps(11)) simp

lemma no_seq: "matchR ml r1 st = [] \<Longrightarrow> matchR ml (Seq r1 r2) st = []"
  by simp

lemma no_rep: "0 < lo \<Longrightarrow> matchR ml r (b, s, cs) = [] \<Longrightarrow> matchR ml (Rep lo None g r) (b, s, cs) = []"
  by (subst matchR.simps(11)) simp

lemma no_grp: "matchR ml r (b, s, cs) = [] \<Longrightarrow> matchR ml (Grp n r) (b, s, cs) = []"
  by simp

lemma no_bol: "\<not> atBol ml b \<Longrightarrow> matchR ml Bol (b, s, cs) = []"
  by simp

lemma no_str: "take (length w) s \<noteq> w \<Longrightarrow> matchR ml (Str w) (b, s, cs) = []"
  by simp

lemma isDigit_dot: "\<not> isDigit (CHR ''.'')" by (simp add: isDigit_def)
lemma digit_not_space: "isDigit c \<Longrightarrow> \<not> isSpace c"
  by (auto simp: isDigit_def isSpace_def)

lemma ordered_line:
  assumes n: "n \<noteq> []" "\<forall>c\<in>set n. isDigit c"
    and t: "t \<noteq> []" "\<forall>c\<in>set t. \<not> isLineTerminator c"
    and r: "rest = [] \<or> hd rest = LF"
    and b: "atBol True b"
  shows "firstIs True orderedRegex (b, n @ ''. '' @ t @ rest, [])
           (rev (n @ ''. '' @ t) @ b, rest, [(1, t)])"
proof -
  let ?s = "n @ CHR ''.'' # CHR '' '' # t @ rest"
  have eol: "atEol True rest"
    using r by (cases rest) (auto simp: atEol_def isLineTerminator_def LF_def)
  have "firstIs True (Rep 0 None True (Cls [CSpace])) (b, [] @ ?s, []) (rev [] @ b, ?s, [])"
    using n by (intro firstIs_rep_atom[where p = "\<lambda>x. inClass x [CSpace]"])
       (cases n; auto simp: inClass_def digit_not_space)+
  then have 1: "firstIs True (Rep 0 None True (Cls [CSpace])) (b, ?s, []) (b, ?s, [])"
    by simp
  have 2: "firstIs True (Rep 1 None True (Cls [CDigit])) (b, n @ (CHR ''.'' # CHR '' '' # t @ rest), [])
             (rev n @ b, CHR ''.'' # CHR '' '' # t @ rest, [])"
    using n by (intro firstIs_rep_atom[where p = "\<lambda>x. inClass x [CDigit]"])
       (auto simp: inClass_def isDigit_dot Suc_le_eq)
  have 3: "firstIs True (Rep 1 None True Dot) (CHR '' '' # CHR ''.'' # rev n @ b, t @ rest, [])
             (rev t @ CHR '' '' # CHR ''.'' # rev n @ b, rest, [])"
    using t r by (intro firstIs_rep_atom[where p = "\<lambda>x. \<not> isLineTerminator x"])
       (auto simp: Suc_le_eq isLineTerminator_def LF_def)
  have 4: "firstIs True (Grp 1 (Rep 1 None True Dot)) (CHR '' '' # CHR ''.'' # rev n @ b, t @ rest, [])
             (rev t @ CHR '' '' # CHR ''.'' # rev n @ b, rest, [(1, t)])"
    using firstIs_grp[OF 3, of 1] by simp
  have "firstIs True orderedRegex (b, ?s, []) (rev t @ CHR '' '' # CHR ''.'' # rev n @ b, rest, [(1, t)])"
    unfolding orderedRegex_def seqs.simps
    apply (rule firstIs_seq[OF firstIs_bol[OF b]])
    apply (rule firstIs_seq[OF 1])
    apply (rule firstIs_seq[OF 2])
    apply (rule firstIs_seq[OF firstIs_lit])
    apply (rule firstIs_seq[OF firstIs_lit])
    apply (rule firstIs_seq[OF 4])
    apply (rule firstIs_eol[OF eol])
    done
  then show ?thesis by simp
qed

section \<open>Escaping of user text\<close>

lemma escapeHTML_escapeText: "escapeHTML t = escapeText t"
  by (simp add: escapeHTML_def voidElements_def rawTextElements_def escapeText_def)

lemma escapeTextChar_no_lt: "CHR ''<'' \<notin> set (escapeTextChar c)"
  by (simp add: escapeTextChar_def)

lemma escapeText_no_lt: "CHR ''<'' \<notin> set (escapeText t)"
  by (simp add: escapeText_def escapeTextChar_no_lt)

lemma tokenize_escapeTextChar:
  "tokenize Data (escapeTextChar c @ rest) = emitThen (Some (Character c)) (tokenize Data rest)"
  by (simp add: escapeTextChar_def isAlnum_def isAlpha_def isDigit_def decodeRef_def NBSP_def)

lemma tokenize_escapeText: "tokenize Data (escapeText t) = Some (map Character t)"
proof (induction t)
  case Nil
  show ?case by (simp add: escapeText_def)
next
  case (Cons c t)
  have "escapeText (c # t) = escapeTextChar c @ escapeText t"
    by (simp add: escapeText_def)
  then show ?case
    using Cons by (simp add: tokenize_escapeTextChar emitThen_def)
qed

lemma appendText_snoc: "appendText t (appendText [c] rc) = appendText (c # t) rc"
proof (cases rc)
  case Nil
  then show ?thesis by (cases t) auto
next
  case (Cons n ns)
  then show ?thesis by (cases n; cases t) auto
qed

lemma build_characters:
  "build [([], [], rc)] [] False (map Character t) = Some (rev (appendText t rc))"
proof (induction t arbitrary: rc)
  case Nil
  show ?case by (simp add: currentName_def)
next
  case (Cons c t)
  show ?case
    by (simp add: currentName_def Cons appendText_snoc)
qed

lemma parse_escaped:
  assumes "CHR 0x0D \<notin> set t" "CHR 0x00 \<notin> set t"
  shows "parseHTML (escapeHTML t) = Some (if t = [] then [] else [Text t])"
proof -
  have a: "CHR 0x0D \<notin> set (escapeText t)" "CHR 0x00 \<notin> set (escapeText t)"
    using assms by (auto simp: escapeText_def escapeTextChar_def split: if_splits)
  have "appendText t [] = (if t = [] then [] else [Text t])"
    by (cases t) auto
  then show ?thesis
    using a by (simp add: parseHTML_def escapeHTML_escapeText tokenize_escapeText build_characters)
qed

text \<open>
  Claim C1. The bubble of a user message receives \<open>escapeHTML\<close> of the text and nothing
  else. That markup contains no \<open><\<close>, so the tokenizer never leaves the data state: it
  yields the characters of the text, one character token each, and no tag token, whatever
  the text contains. The tree built from it is the single text node holding the text
  (for text free of CR and NUL, which the parser model does not cover).
\<close>

theorem user_text_is_escaped_only:
  assumes "m_role m = User"
  shows "bubbleHTML m = Some (escapeHTML (m_text m))
         \<and> CHR ''<'' \<notin> set (escapeHTML (m_text m))
         \<and> tokenize Data (escapeHTML (m_text m)) = Some (map Character (m_text m))
         \<and> (CHR 0x0D \<notin> set (m_text m) \<and> CHR 0x00 \<notin> set (m_text m) \<longrightarrow>
              parseHTML (escapeHTML (m_text m))
                = Some (if m_text m = [] then [] else [Text (m_text m)]))"
  using assms
  by (simp add: bubbleHTML_def parse_escaped)
     (simp add: escapeHTML_escapeText escapeText_no_lt tokenize_escapeText)

theorem user_text_is_escaped_only_witness:
  \<open>m_role \<lparr>m_id = ''u1'', m_role = User,
            m_text = ''<script>alert(1)</script> **b** <img src=x onerror=alert(2)>'',
            m_ts = 0, m_isHtml = False\<rparr> = User
   \<and> bubbleHTML \<lparr>m_id = ''u1'', m_role = User,
            m_text = ''<script>alert(1)</script> **b** <img src=x onerror=alert(2)>'',
            m_ts = 0, m_isHtml = False\<rparr>
       = Some ''&lt;script&gt;alert(1)&lt;/script&gt; **b** &lt;img src=x onerror=alert(2)&gt;''
   \<and> parseHTML ''&lt;script&gt;alert(1)&lt;/script&gt; **b** &lt;img src=x onerror=alert(2)&gt;''
       = Some [Text ''<script>alert(1)</script> **b** <img src=x onerror=alert(2)>'']\<close>
proof -
  have e: \<open>escapeHTML ''<script>alert(1)</script> **b** <img src=x onerror=alert(2)>''
           = ''&lt;script&gt;alert(1)&lt;/script&gt; **b** &lt;img src=x onerror=alert(2)&gt;''\<close>
    by (simp add: escapeHTML_escapeText escapeText_def escapeTextChar_def NBSP_def)
  show ?thesis
    using user_text_is_escaped_only
            [of \<open>\<lparr>m_id = ''u1'', m_role = User,
                   m_text = ''<script>alert(1)</script> **b** <img src=x onerror=alert(2)>'',
                   m_ts = 0, m_isHtml = False\<rparr>\<close>]
    by (simp add: e)
qed

section \<open>The sanitizer on trees\<close>

lemma cleanChild_tags:
  "tag \<in> set (elementTags (cleanChild n)) \<Longrightarrow> toLowerCase tag \<in> set allowedTags"
proof (induction n arbitrary: tag)
  case (Element t attrs children)
  then show ?case by (auto split: if_splits)
qed simp_all




text \<open>
  Claim C2, at the failing input \<open><b id="x">hi</b>\<close>. The attribute \<open>id\<close> is neither in
  the entry of \<open>allowedAttributes\<close> for \<open>b\<close> nor in its entry for every tag, and the
  sanitizer returns the markup with the attribute in place: \<open>cleanNode\<close> removes the
  attributes of line 243 only and never reads \<open>allowedAttributes\<close>.
\<close>

theorem sanitizer_keeps_unlisted_attribute:
  \<open>\<not> attributeAllowed ''b'' ''id''
   \<and> sanitizeHTML (JStr ''<b id="x">hi</b>'') = Some ''<b id="x">hi</b>''\<close>
  by code_simp




section \<open>The guards of the stages\<close>

text \<open>
  Claim C5 as stated fails for \<open>sanitizeHTML\<close>, which has no guard: \<open>undefined\<close> is
  converted to the string \<open>undefined\<close> by the setter of \<open>innerHTML\<close> and comes back as
  such.
\<close>

theorem sanitizeHTML_of_undefined:
  "sanitizeHTML JUndefined = Some ''undefined'' \<and> sanitizeHTML JUndefined \<noteq> Some []"
  by code_simp

text \<open>
  Claim C5, amended. \<open>parseMarkdownTables\<close>, \<open>markdownToHTML\<close> and \<open>processReplyContent\<close>
  return the empty string for the empty string and for every value that is not a
  string; \<open>sanitizeHTML\<close> returns the empty string for the empty string and for \<open>null\<close>.
\<close>

theorem guarded_stages_return_empty:
  assumes "v = JStr [] \<or> (\<forall>s. v \<noteq> JStr s)"
  shows "parseMarkdownTables v = [] \<and> markdownToHTML v = [] \<and> processReplyContent v = Some []
         \<and> sanitizeHTML (JStr []) = Some [] \<and> sanitizeHTML JNull = Some []"
proof -
  have "guardString v = None"
    using assms by (cases v) auto
  then show ?thesis
    by (simp add: parseMarkdownTables_def markdownToHTML_def processReplyContent_def
        sanitizeHTML_def parseHTML_def currentName_def voidElements_def)
qed

theorem guarded_stages_return_empty_witness:
  "(JNum 42 = JStr [] \<or> (\<forall>s. JNum 42 \<noteq> JStr s))
   \<and> parseMarkdownTables (JNum 42) = [] \<and> markdownToHTML (JNum 42) = []
   \<and> processReplyContent (JNum 42) = Some []
   \<and> parseMarkdownTables (JStr []) = [] \<and> markdownToHTML JUndefined = []
   \<and> processReplyContent JNull = Some []"
  using guarded_stages_return_empty [of "JNum 42"] guarded_stages_return_empty [of "JStr []"]
    guarded_stages_return_empty [of JUndefined] guarded_stages_return_empty [of JNull]
  by simp

section \<open>The table parser\<close>

lemma separatorLoop_none: "separatorLoop i ls = - 1 \<longleftrightarrow> (\<forall>l \<in> set ls. \<not> isSeparatorRow l)"
  by (induction ls arbitrary: i) auto

lemma separatorLoop_ge: "separatorLoop i ls = - 1 \<or> int i \<le> separatorLoop i ls"
proof (induction ls arbitrary: i)
  case (Cons l ls)
  show ?case using Cons[of "Suc i"] by auto
qed simp

lemma separatorLoop_first: "separatorLoop 0 ls = 0 \<longleftrightarrow> (ls \<noteq> [] \<and> isSeparatorRow (hd ls))"
proof (cases ls)
  case (Cons l ls')
  then show ?thesis using separatorLoop_ge[of 1 ls'] by auto
qed simp

text \<open>
  Claim C6. For a candidate block, given to the callback as the matched text and the
  captured block: when no line of the block is a separator row, or the first line is
  one, the callback returns the matched text, so the replacement leaves the block as it
  stands and no table is written.
\<close>

theorem block_without_header_separator_unchanged:
  assumes "(\<forall>l \<in> set (blockLines (cap cs 1)). \<not> isSeparatorRow l)
           \<or> (blockLines (cap cs 1) \<noteq> [] \<and> isSeparatorRow (hd (blockLines (cap cs 1))))"
  shows "tableCallback match cs = match"
  using assms by (auto simp: tableCallback_def Let_def separatorLoop_none separatorLoop_first)

theorem block_without_header_separator_unchanged_witness:
  \<open>blockLines (cap [(1, ''|---|---|\<newline>| 1 | 2 |\<newline>'')] 1) = [''|---|---|'', ''| 1 | 2 |'']
   \<and> isSeparatorRow ''|---|---|''
   \<and> tableCallback ''|---|---|\<newline>| 1 | 2 |\<newline>'' [(1, ''|---|---|\<newline>| 1 | 2 |\<newline>'')]
       = ''|---|---|\<newline>| 1 | 2 |\<newline>''
   \<and> parseMarkdownTables (JStr ''|---|---|\<newline>| 1 | 2 |\<newline>'') = ''|---|---|\<newline>| 1 | 2 |\<newline>''\<close>
proof -
  have l: \<open>blockLines (cap [(1, ''|---|---|\<newline>| 1 | 2 |\<newline>'')] 1) = [''|---|---|'', ''| 1 | 2 |'']\<close>
    by code_simp
  have r: \<open>isSeparatorRow ''|---|---|''\<close>
    by code_simp
  have w: \<open>parseMarkdownTables (JStr ''|---|---|\<newline>| 1 | 2 |\<newline>'') = ''|---|---|\<newline>| 1 | 2 |\<newline>''\<close>
    by code_simp
  show ?thesis
    using block_without_header_separator_unchanged
      [of \<open>[(1, ''|---|---|\<newline>| 1 | 2 |\<newline>'')]\<close> \<open>''|---|---|\<newline>| 1 | 2 |\<newline>''\<close>] l r w
    by simp
qed

text \<open>
  Claim C7, at the failing input: the three lines \<open>| A | B |\<close>, \<open>|---|---|\<close> and
  \<open>| 1 | 2 |\<close> joined by line feeds, the third line ending the text. \<open>tableRegex\<close> takes a
  row into the block only with the line feed after it, so the block is the first two
  lines: the table has its header and no body row, and the third line stays behind the
  table as text. The claim asks for one body row with the cells \<open>1\<close> and \<open>2\<close>.
\<close>

theorem table_last_row_without_newline:
  \<open>markdownToHTML (JStr ''| A | B |\<newline>|---|---|\<newline>| 1 | 2 |'') =
     ''\<newline><table class="markdown-table">\<newline><thead>\<newline><tr>\<newline>''
     @ ''<th style="text-align:left">A</th>\<newline><th style="text-align:left">B</th>\<newline>''
     @ ''</tr>\<newline></thead>\<newline></table>\<newline>| 1 | 2 |''\<close>
  by code_simp

text \<open>
  The same three lines with a line feed after the third: the row is taken, and the table
  has the header cells \<open>A\<close> and \<open>B\<close>, both left-aligned, and one body row with the cells
  \<open>1\<close> and \<open>2\<close>. This is the path that the input above misses.
\<close>

theorem table_round_trip:
  \<open>markdownToHTML (JStr ''| A | B |\<newline>|---|---|\<newline>| 1 | 2 |\<newline>'') =
     ''\<newline><table class="markdown-table">\<newline><thead>\<newline><tr>\<newline>''
     @ ''<th style="text-align:left">A</th>\<newline><th style="text-align:left">B</th>\<newline>''
     @ ''</tr>\<newline></thead>\<newline><tbody>\<newline><tr>\<newline>''
     @ ''<td style="text-align:left">1</td>\<newline><td style="text-align:left">2</td>\<newline>''
     @ ''</tr>\<newline></tbody>\<newline></table>\<newline>''\<close>
  by code_simp

section \<open>The Markdown transformer\<close>

text \<open>
  Claim C4, at the failing input of two inline code spans \<open>`a` `b`\<close>. The tokens
  \<open>%%INLINECODE_0%%\<close> and \<open>%%INLINECODE_1%%\<close> each contain an underscore, the rule for
  \<open>_x_\<close> matches from the one to the other and writes an italic element across both
  tokens, and neither code span is restored.
\<close>

theorem emphasis_fires_across_code_placeholders:
  "markdownToHTML (JStr [CHR 0x60, CHR ''a'', CHR 0x60, CHR '' '', CHR 0x60, CHR ''b'', CHR 0x60])
     = ''%%INLINECODE<em>0%% %%INLINECODE</em>1%%''"
  by code_simp

section \<open>The list rules\<close>

lemma joinLines_cons: "ls \<noteq> [] \<Longrightarrow> joinLines (l # ls) = l @ LF # joinLines ls"
  by (cases ls) auto

lemma replaceFrom_match:
  assumes "firstIs ml r (b, s, []) (b', s', cs)" "length s' < length s"
  shows "replaceFrom ml r f b s = f (take (length s - length s') s) cs @ replaceFrom ml r f b' s'"
  using assms by (subst replaceFrom.simps) (auto simp: firstIs_def)

lemma replaceFrom_skip:
  "matchR ml r (b, x # xs, []) = [] \<Longrightarrow> replaceFrom ml r f b (x # xs) = x # replaceFrom ml r f (x # b) xs"
  by (subst replaceFrom.simps) simp

lemma replaceFrom_end:
  "matchR ml r (b, [], []) = [] \<Longrightarrow> replaceFrom ml r f b [] = []"
  by (subst replaceFrom.simps) simp

lemma replaceFrom_skips:
  assumes "\<And>y1 y2. y = y1 @ y2 \<Longrightarrow> y2 \<noteq> [] \<Longrightarrow> matchR ml r (rev y1 @ b, y2 @ rest, []) = []"
  shows "replaceFrom ml r f b (y @ rest) = y @ replaceFrom ml r f (rev y @ b) rest"
  using assms
proof (induction y arbitrary: b)
  case Nil
  show ?case by simp
next
  case (Cons x y)
  have 0: "matchR ml r (b, (x # y) @ rest, []) = []"
    using Cons.prems[of "[]" "x # y"] by simp
  have "replaceFrom ml r f (x # b) (y @ rest) = y @ replaceFrom ml r f (rev y @ x # b) rest"
  proof (rule Cons.IH)
    fix y1 y2 assume "y = y1 @ y2" "y2 \<noteq> []"
    then show "matchR ml r (rev y1 @ x # b, y2 @ rest, []) = []"
      using Cons.prems[of "x # y1" y2] by simp
  qed
  with 0 show ?case by (simp add: replaceFrom_skip)
qed

lemma not_bol: "t \<noteq> [] \<Longrightarrow> \<not> isLineTerminator (last t) \<Longrightarrow> \<not> atBol True (rev t @ b)"
  by (cases t rule: rev_cases) (auto simp: atBol_def)

lemma ordered_no_match: "\<not> atBol True b \<Longrightarrow> matchR True orderedRegex (b, s, []) = []"
  by (simp add: orderedRegex_def)

lemma ordered_lines:
  assumes "items \<noteq> []" "\<forall>item\<in>set items. okItem item" "atBol True b"
  shows "replaceFrom True orderedRegex (\<lambda>m cs. wrapTag ''li'' (cap cs 1)) b
            (joinLines (map numbered items))
         = joinLines (map (\<lambda>item. wrapTag ''li'' (snd item)) items)"
  using assms
proof (induction items arbitrary: b rule: list_nonempty_induct)
  case (single item)
  obtain n t where it: "item = (n, t)" by (cases item)
  from single it have ok: "n \<noteq> []" "\<forall>c\<in>set n. isDigit c" "t \<noteq> []" "\<forall>c\<in>set t. \<not> isLineTerminator c"
    by (auto simp: okItem_def list_all_iff list_ex_iff)
  let ?b' = "rev (n @ ''. '' @ t) @ b"
  have m: "firstIs True orderedRegex (b, n @ ''. '' @ t @ [], []) (?b', [], [(1, t)])"
    using ok single.prems(2) by (intro ordered_line) auto
  have nb: "\<not> atBol True ?b'"
    using ok by (cases t rule: rev_cases) (auto simp: atBol_def)
  have "replaceFrom True orderedRegex (\<lambda>m cs. wrapTag ''li'' (cap cs 1)) b (n @ ''. '' @ t)
        = wrapTag ''li'' t @ replaceFrom True orderedRegex (\<lambda>m cs. wrapTag ''li'' (cap cs 1)) ?b' []"
    using replaceFrom_match[OF m[simplified]] ok by (simp add: cap_def)
  also have "\<dots> = wrapTag ''li'' t"
    using ordered_no_match[OF nb] by (simp add: replaceFrom_end)
  finally show ?case by (simp add: it numbered_def)
next
  case (cons item items)
  obtain n t where it: "item = (n, t)" by (cases item)
  from cons.prems it have ok: "n \<noteq> []" "\<forall>c\<in>set n. isDigit c" "t \<noteq> []" "\<forall>c\<in>set t. \<not> isLineTerminator c"
    by (auto simp: okItem_def list_all_iff list_ex_iff)
  let ?J = "joinLines (map numbered items)"
  let ?b' = "rev (n @ ''. '' @ t) @ b"
  let ?F = "\<lambda>m cs. wrapTag ''li'' (cap cs 1)"
  have m: "firstIs True orderedRegex (b, n @ ''. '' @ t @ (LF # ?J), []) (?b', LF # ?J, [(1, t)])"
    using ok cons.prems(2) by (intro ordered_line) auto
  have nb: "\<not> atBol True ?b'"
    using ok by (cases t rule: rev_cases) (auto simp: atBol_def)
  have bol: "atBol True (LF # ?b')"
    by (simp add: atBol_def isLineTerminator_def LF_def)
  have "replaceFrom True orderedRegex ?F b (n @ ''. '' @ t @ LF # ?J)
        = wrapTag ''li'' t @ replaceFrom True orderedRegex ?F ?b' (LF # ?J)"
    using replaceFrom_match[OF m] ok by (simp add: cap_def)
  also have "replaceFrom True orderedRegex ?F ?b' (LF # ?J) = LF # replaceFrom True orderedRegex ?F (LF # ?b') ?J"
    using ordered_no_match[OF nb] by (simp add: replaceFrom_skip)
  also have "replaceFrom True orderedRegex ?F (LF # ?b') ?J
        = joinLines (map (\<lambda>item. wrapTag ''li'' (snd item)) items)"
    using cons.prems(1) bol by (intro cons.IH) auto
  finally show ?case
    using cons.hyps by (simp add: it numbered_def joinLines_cons)
qed

lemma listRunRegex_item: "listRunRegex = Plus itemRegex"
  by (simp add: listRunRegex_def itemRegex_def)

lemma item_no_match: "take 4 s \<noteq> ''<li>'' \<Longrightarrow> matchR False itemRegex (b, s, cs) = []"
  unfolding itemRegex_def seqs.simps by (intro no_grp no_seq no_str) (simp add: eval_nat_numeral)

lemma item_first:
  assumes c: "CHR ''<'' \<notin> set c"
    and sep: "(sep = [] \<and> (rest = [] \<or> hd rest \<noteq> LF)) \<or> sep = [LF]"
  shows "\<exists>cs'. firstIs False itemRegex (b, wrapTag ''li'' c @ sep @ rest, cs)
                 (rev (wrapTag ''li'' c @ sep) @ b, rest, cs')"
proof -
  let ?b1 = "rev ''<li>'' @ b"
  have 1: "firstIs False (Rep 0 None True (NCls [CChar (CHR ''<'')])) (?b1, c @ (''</li>'' @ sep @ rest), cs)
             (rev c @ ?b1, ''</li>'' @ sep @ rest, cs)"
    using c by (intro firstIs_rep_atom[where p = "\<lambda>x. \<not> inClass x [CChar (CHR ''<'')]"])
       (auto simp: inClass_def)
  let ?b2 = "rev ''</li>'' @ rev c @ ?b1"
  have 2: "firstIs False (Rep 0 (Some 1) True (Lit LF)) (?b2, sep @ rest, cs) (rev sep @ ?b2, rest, cs)"
    using sep firstIs_opt_take[of False LF ?b2 rest cs] firstIs_opt_skip[of rest LF False ?b2 cs]
    by auto
  have "firstIs False (seqs [Str ''<li>'', Star (NCls [CChar (CHR ''<'')]), Str ''</li>'', Opt (Lit LF)])
          (b, ''<li>'' @ (c @ (''</li>'' @ sep @ rest)), cs) (rev sep @ ?b2, rest, cs)"
    unfolding seqs.simps
    apply (rule firstIs_seq[OF firstIs_str])
    apply (rule firstIs_seq[OF 1])
    apply (rule firstIs_seq[OF firstIs_str])
    apply (rule 2)
    done
  from firstIs_grp[OF this, of 1] show ?thesis
    by (auto simp: itemRegex_def wrapTag_def)
qed

lemma wrapTag_nonempty: "wrapTag tag body \<noteq> []"
  by (simp add: wrapTag_def)

lemma run_first:
  assumes "contents \<noteq> []" "\<forall>c\<in>set contents. CHR ''<'' \<notin> set c"
    and sep: "(sep = [] \<and> (rest = [] \<or> hd rest \<noteq> LF)) \<or> sep = [LF]"
    and stop: "take 4 rest \<noteq> ''<li>''"
    and lo: "lo \<le> 1"
  shows "\<exists>cs'. firstIs False (Rep lo None True itemRegex) (b, liRun contents @ sep @ rest, cs)
                 (rev (liRun contents @ sep) @ b, rest, cs')"
  using assms(1,2) lo
proof (induction contents arbitrary: b cs lo rule: list_nonempty_induct)
  case (single c)
  let ?m = "wrapTag ''li'' c @ sep"
  from single item_first[OF _ sep, of c b cs] obtain cs' where
    1: "firstIs False itemRegex (b, ?m @ rest, cs) (rev ?m @ b, rest, cs')"
    by auto
  have 2: "firstIs False (Rep (lo - 1) None True itemRegex) (rev ?m @ b, rest, cs') (rev ?m @ b, rest, cs')"
    using single.prems(2) firstIs_rep_stop[OF item_no_match[OF stop]] by simp
  have "firstIs False (Rep lo None True itemRegex) (b, ?m @ rest, cs) (rev ?m @ b, rest, cs')"
    by (rule firstIs_rep_step[OF 1 _ 2]) (simp add: wrapTag_nonempty)
  then show ?case by (auto simp: liRun_def)
next
  case (cons c contents)
  let ?m = "wrapTag ''li'' c @ [LF]"
  let ?r = "liRun contents @ sep @ rest"
  from cons.prems item_first[of c "[LF]" ?r b cs] obtain cs1 where
    1: "firstIs False itemRegex (b, ?m @ ?r, cs) (rev ?m @ b, ?r, cs1)"
    by auto
  from cons.IH[of 0 "rev ?m @ b" cs1] cons.prems obtain cs' where
    2: "firstIs False (Rep 0 None True itemRegex) (rev ?m @ b, ?r, cs1)
          (rev (liRun contents @ sep) @ rev ?m @ b, rest, cs')"
    by auto
  have "firstIs False (Rep lo None True itemRegex) (b, ?m @ ?r, cs)
          (rev (liRun contents @ sep) @ rev ?m @ b, rest, cs')"
    using cons.prems(2) by (intro firstIs_rep_step[OF 1 _ ]) (use 2 in auto)
  moreover have "liRun (c # contents) = wrapTag ''li'' c @ LF # liRun contents"
    using cons.hyps by (simp add: liRun_def joinLines_cons)
  ultimately show ?case by auto
qed

lemma listRun_no_match: "take 4 s \<noteq> ''<li>'' \<Longrightarrow> matchR False listRunRegex (b, s, cs) = []"
  unfolding listRunRegex_item by (intro no_rep item_no_match) auto

lemma liRun_nonempty: "contents \<noteq> [] \<Longrightarrow> liRun contents \<noteq> []"
  by (cases contents rule: joinLines.cases) (auto simp: liRun_def wrapTag_def)

lemma wrap_run_then:
  assumes "contents \<noteq> []" "\<forall>c\<in>set contents. CHR ''<'' \<notin> set c"
    and sep: "(sep = [] \<and> (rest = [] \<or> hd rest \<noteq> LF)) \<or> sep = [LF]"
    and stop: "take 4 rest \<noteq> ''<li>''"
  shows "replaceFrom False listRunRegex (\<lambda>m cs. wrapTag ''ul'' m) b (liRun contents @ sep @ rest)
         = wrapTag ''ul'' (liRun contents @ sep)
           @ replaceFrom False listRunRegex (\<lambda>m cs. wrapTag ''ul'' m) (rev (liRun contents @ sep) @ b) rest"
proof -
  from run_first[OF assms, of 1 b "[]"] obtain cs' where
    1: "firstIs False listRunRegex (b, liRun contents @ sep @ rest, [])
          (rev (liRun contents @ sep) @ b, rest, cs')"
    by (auto simp: listRunRegex_item)
  have "length rest < length (liRun contents @ sep @ rest)"
    using liRun_nonempty[OF assms(1)] by (cases "liRun contents") auto
  from replaceFrom_match[OF 1 this] show ?thesis by simp
qed

lemma skip_no_lt:
  assumes "CHR ''<'' \<notin> set y"
  shows "replaceFrom False listRunRegex f b (y @ rest) = y @ replaceFrom False listRunRegex f (rev y @ b) rest"
proof (rule replaceFrom_skips)
  fix y1 y2 assume "y = y1 @ y2" "y2 \<noteq> []"
  with assms have "hd (y2 @ rest) \<noteq> CHR ''<''" by (cases y2) auto
  then have "take 4 (y2 @ rest) \<noteq> ''<li>''" using \<open>y2 \<noteq> []\<close> by (cases y2) auto
  then show "matchR False listRunRegex (rev y1 @ b, y2 @ rest, []) = []"
    by (rule listRun_no_match)
qed

lemma wrap_single_run:
  assumes "contents \<noteq> []" "\<forall>c\<in>set contents. CHR ''<'' \<notin> set c"
  shows "wrapListRuns (liRun contents) = wrapTag ''ul'' (liRun contents)"
proof -
  have e: "replaceFrom False listRunRegex (\<lambda>m cs. wrapTag ''ul'' m) b [] = []" for b
    by (intro replaceFrom_end listRun_no_match) simp
  show ?thesis
    using wrap_run_then[OF assms, of "[]" "[]" "[]"] by (simp add: wrapListRuns_def replaceAll_def e)
qed

lemma wrap_two_runs:
  assumes "cs1 \<noteq> []" "\<forall>c\<in>set cs1. CHR ''<'' \<notin> set c"
    and "cs2 \<noteq> []" "\<forall>c\<in>set cs2. CHR ''<'' \<notin> set c"
    and x: "CHR ''<'' \<notin> set x"
  shows "wrapListRuns (liRun cs1 @ LF # x @ LF # liRun cs2)
         = wrapTag ''ul'' (liRun cs1 @ [LF]) @ x @ LF # wrapTag ''ul'' (liRun cs2)"
proof -
  let ?F = "\<lambda>m cs. wrapTag ''ul'' m"
  have e: "replaceFrom False listRunRegex ?F b [] = []" for b
    by (intro replaceFrom_end listRun_no_match) simp
  have stop: "take 4 (x @ LF # liRun cs2) \<noteq> ''<li>''"
    using x by (cases x) (auto simp: LF_def)
  have 1: "replaceFrom False listRunRegex ?F [] (liRun cs1 @ [LF] @ (x @ LF # liRun cs2))
        = wrapTag ''ul'' (liRun cs1 @ [LF])
          @ replaceFrom False listRunRegex ?F (rev (liRun cs1 @ [LF]) @ []) (x @ LF # liRun cs2)"
    by (rule wrap_run_then[OF assms(1,2) _ stop]) simp
  have 2: "replaceFrom False listRunRegex ?F b ((x @ [LF]) @ liRun cs2)
        = (x @ [LF]) @ replaceFrom False listRunRegex ?F (rev (x @ [LF]) @ b) (liRun cs2)" for b
    using x by (intro skip_no_lt) (auto simp: LF_def)
  have 3: "replaceFrom False listRunRegex ?F b (liRun cs2) = wrapTag ''ul'' (liRun cs2)" for b
    using wrap_run_then[OF assms(3,4), of "[]" "[]" b] by (simp add: e)
  show ?thesis
    using 1 2 3 by (simp add: wrapListRuns_def replaceAll_def)
qed

lemma testFrom_no:
  assumes "\<And>b' s'. b' \<noteq> [] \<Longrightarrow> matchR ml r (b', s', []) = []" "b \<noteq> []"
  shows "\<not> testFrom ml r b s"
  using assms(2) by (induction s arbitrary: b) (simp_all add: assms(1))

lemma separatorLike_no:
  assumes "\<exists>c\<in>set t. \<not> inClass c [CChar (CHR ''-''), CChar (CHR '':''), CSpace, CChar (CHR ''|'')]"
  shows "\<not> test False separatorLikeRegex t"
proof -
  let ?p = "\<lambda>x. inClass x [CChar (CHR ''-''), CChar (CHR '':''), CSpace, CChar (CHR ''|'')]"
  let ?n = "length (takeWhile ?p t)"
  have n: "?n < length t"
  proof -
    have "length (takeWhile ?p t) + length (dropWhile ?p t) = length t"
      by (metis length_append takeWhile_dropWhile_id)
    moreover have "dropWhile ?p t \<noteq> []"
      using assms by (simp add: dropWhile_eq_Nil_conv)
    ultimately show ?thesis by (cases "dropWhile ?p t") auto
  qed
  have later: "matchR False separatorLikeRegex (b', s', []) = []" if "b' \<noteq> []" for b' s'
    using that by (cases b') (simp_all add: separatorLikeRegex_def atBol_def)
  have dr: "\<not> atEol False (drop x t)" if "x < Suc ?n" for x
    using that n by (cases "drop x t") (auto simp: atEol_def)
  have "matchR False separatorLikeRegex ([], t, []) = []"
    using dr by (auto simp: separatorLikeRegex_def atBol_def rep_atom_greedy[OF matchR.simps(4)]
        simp del: upt_Suc)
  then show ?thesis
    using testFrom_no[of False separatorLikeRegex, OF later]
    by (cases t) (simp_all add: test_def)
qed

lemma bullet_line:
  assumes m: "m \<in> set ''-*+''"
    and t: "t \<noteq> []" "\<forall>c\<in>set t. c \<noteq> LF"
    and r: "rest = [] \<or> hd rest = LF"
    and b: "atBol True b"
  shows "firstIs True bulletRegex (b, m # CHR '' '' # t @ rest, [])
           (rev (m # CHR '' '' # t) @ b, rest, [(1, t)])"
proof -
  let ?s = "m # CHR '' '' # t @ rest"
  have eol: "atEol True rest"
    using r by (cases rest) (auto simp: atEol_def isLineTerminator_def LF_def)
  have "firstIs True (Rep 0 None True (Cls [CSpace])) (b, [] @ ?s, []) (rev [] @ b, ?s, [])"
    using m by (intro firstIs_rep_atom[where p = "\<lambda>x. inClass x [CSpace]"])
       (auto simp: inClass_def isSpace_def)
  then have 1: "firstIs True (Rep 0 None True (Cls [CSpace])) (b, ?s, []) (b, ?s, [])"
    by simp
  have 2: "firstIs True (Cls [CChar (CHR ''-''), CChar (CHR ''*''), CChar (CHR ''+'')]) (b, ?s, [])
             (m # b, CHR '' '' # t @ rest, [])"
    using m by (auto simp: firstIs_def inClass_def)
  have 3: "firstIs True (Rep 1 None True (NCls [CChar LF])) (CHR '' '' # m # b, t @ rest, [])
             (rev t @ CHR '' '' # m # b, rest, [])"
    using t r by (intro firstIs_rep_atom[where p = "\<lambda>x. \<not> inClass x [CChar LF]"])
       (auto simp: Suc_le_eq inClass_def)
  have 4: "firstIs True (Grp 1 (Rep 1 None True (NCls [CChar LF]))) (CHR '' '' # m # b, t @ rest, [])
             (rev t @ CHR '' '' # m # b, rest, [(1, t)])"
    using firstIs_grp[OF 3, of 1] by simp
  have "firstIs True bulletRegex (b, ?s, []) (rev t @ CHR '' '' # m # b, rest, [(1, t)])"
    unfolding bulletRegex_def seqs.simps
    apply (rule firstIs_seq[OF firstIs_bol[OF b]])
    apply (rule firstIs_seq[OF 1])
    apply (rule firstIs_seq[OF 2])
    apply (rule firstIs_seq[OF firstIs_lit])
    apply (rule firstIs_seq[OF 4])
    apply (rule firstIs_eol[OF eol])
    done
  then show ?thesis by simp
qed

lemma bullet_no_match: "\<not> atBol True b \<Longrightarrow> matchR True bulletRegex (b, s, []) = []"
  by (simp add: bulletRegex_def)

lemma bullet_single:
  assumes m: "m \<in> set ''-*+''"
    and t: "t \<noteq> []" "\<forall>c\<in>set t. \<not> isLineTerminator c"
    and ns: "\<exists>c\<in>set t. \<not> inClass c [CChar (CHR ''-''), CChar (CHR '':''), CSpace, CChar (CHR ''|'')]"
  shows "bulletItems (m # CHR '' '' # t) = wrapTag ''li'' t"
proof -
  let ?b' = "rev (m # CHR '' '' # t) @ []"
  have t': "\<forall>c\<in>set t. c \<noteq> LF"
    using t(2) by (auto simp: isLineTerminator_def LF_def)
  have 1: "firstIs True bulletRegex ([], m # CHR '' '' # t @ [], []) (?b', [], [(1, t)])"
    using m t(1) t' by (intro bullet_line) (auto simp: atBol_def)
  have nb: "\<not> atBol True ?b'"
    using t by (cases t rule: rev_cases) (auto simp: atBol_def)
  have "replaceFrom True bulletRegex bulletCallback [] (m # CHR '' '' # t)
        = bulletCallback (m # CHR '' '' # t) [(1, t)] @ replaceFrom True bulletRegex bulletCallback ?b' []"
    using replaceFrom_match[OF 1[simplified]] by simp
  also have "\<dots> = wrapTag ''li'' t"
    using separatorLike_no[OF ns] bullet_no_match[OF nb]
    by (simp add: replaceFrom_end bulletCallback_def cap_def wrapTag_def)
  finally show ?thesis by (simp add: bulletItems_def replaceAll_def)
qed

text \<open>
  Claim C8, at the failing input of the two bullet lines \<open>- a<b\<close> and \<open>- c\<close>. Both lines
  become list items, one right after the other, and the run should get one wrapper. The
  wrapper rule asks for \<open><li>[^<]*</li>\<close>, which an item holding \<open><\<close> does not match:
  the first item is left outside and the wrapper encloses the second item alone.
\<close>

theorem list_item_with_lt_not_wrapped:
  "markdownToHTML (JStr ''- a<b\<newline>- c'') = ''<li>a<b</li>\<newline><ul><li>c</li></ul>''"
  by code_simp

text \<open>
  Where no item holds \<open><\<close> the wrapper rule does what it is written for: a run of
  consecutive list items gets one wrapper, and two runs with a line between them get a
  wrapper each; the line feed after the first run goes into its wrapper.
\<close>

theorem list_runs_are_wrapped:
  assumes "cs1 \<noteq> []" "\<forall>c\<in>set cs1. CHR ''<'' \<notin> set c"
    and "cs2 \<noteq> []" "\<forall>c\<in>set cs2. CHR ''<'' \<notin> set c"
    and "CHR ''<'' \<notin> set x"
  shows "wrapListRuns (liRun cs1) = wrapTag ''ul'' (liRun cs1)
         \<and> wrapListRuns (liRun cs1 @ LF # x @ LF # liRun cs2)
             = wrapTag ''ul'' (liRun cs1 @ [LF]) @ x @ LF # wrapTag ''ul'' (liRun cs2)"
  using assms by (simp add: wrap_single_run wrap_two_runs)

theorem list_runs_are_wrapped_witness:
  "wrapListRuns ''<li>a</li>\<newline><li>b</li>'' = ''<ul><li>a</li>\<newline><li>b</li></ul>''
   \<and> wrapListRuns ''<li>a</li>\<newline><li>b</li>\<newline>x\<newline><li>c</li>''
       = ''<ul><li>a</li>\<newline><li>b</li>\<newline></ul>x\<newline><ul><li>c</li></ul>''
   \<and> markdownToHTML (JStr ''- a\<newline>2. b\<newline>x\<newline>- c'')
       = ''<ul><li>a</li>\<newline><li>b</li>\<newline></ul>x\<newline><ul><li>c</li></ul>''"
proof -
  have e: "markdownToHTML (JStr ''- a\<newline>2. b\<newline>x\<newline>- c'')
       = ''<ul><li>a</li>\<newline><li>b</li>\<newline></ul>x\<newline><ul><li>c</li></ul>''"
    by code_simp
  show ?thesis
    using list_runs_are_wrapped [of "[''a'', ''b'']" "[''c'']" "''x''"] e
    by (simp add: liRun_def wrapTag_def LF_def)
qed

text \<open>
  The ordered rule of line 188 turns each line \<open>N. text\<close> into \<open><li>text</li>\<close>, the
  element that the bullet rule writes for \<open>- text\<close>, and the wrapper rule puts \<open><ul>\<close>
  around the run, for item texts without \<open><\<close>.
\<close>

lemma ordered_rule_then_wrapper:
  assumes "items \<noteq> []" "\<forall>item\<in>set items. okItem item \<and> CHR ''<'' \<notin> set (snd item)"
  shows "orderedItems (joinLines (map numbered items)) = liRun (map snd items)
         \<and> wrapListRuns (orderedItems (joinLines (map numbered items)))
             = wrapTag ''ul'' (liRun (map snd items))
         \<and> (\<forall>item\<in>set items.
               (\<exists>c\<in>set (snd item).
                   \<not> inClass c [CChar (CHR ''-''), CChar (CHR '':''), CSpace, CChar (CHR ''|'')])
               \<longrightarrow> bulletItems (''- '' @ snd item) = wrapTag ''li'' (snd item))"
proof -
  have 1: "orderedItems (joinLines (map numbered items)) = liRun (map snd items)"
    using assms ordered_lines[of items "[]"]
    by (simp add: orderedItems_def replaceAll_def atBol_def liRun_def comp_def)
  have 2: "wrapListRuns (liRun (map snd items)) = wrapTag ''ul'' (liRun (map snd items))"
    using assms by (intro wrap_single_run) auto
  have 3: "bulletItems (''- '' @ snd item) = wrapTag ''li'' (snd item)"
    if "item \<in> set items"
      "\<exists>c\<in>set (snd item). \<not> inClass c [CChar (CHR ''-''), CChar (CHR '':''), CSpace, CChar (CHR ''|'')]"
    for item
    using that assms(2) bullet_single[of "CHR ''-''" "snd item"]
    by (auto simp: okItem_def list_ex_iff)
  show ?thesis
    using 1 2 3 by auto
qed


section \<open>Idempotence of the table parser\<close>

subsection \<open>The first match of a row\<close>

lemma tableRegex_row: "tableRegex = Seq (Alt Bol (Lit LF)) (Grp 1 (Plus rowRegex))"
  by (simp add: tableRegex_def rowRegex_def)

lemma concat_first:
  assumes "\<forall>z\<in>set pre. F z = []" "F x = y # ys"
  shows "\<exists>tl. concat (map F (pre @ x # post)) = y # tl"
proof -
  have c: "concat (map F pre) = []" using assms(1) by (induction pre) auto
  show ?thesis
    by (rule exI[of _ "ys @ concat (map F post)"]) (simp add: c assms(2) del: concat_eq_Nil_conv)
qed

lemma rev_upt_split:
  assumes "lo \<le> k" "k \<le> n"
  shows "rev [lo..<Suc n] = rev [Suc k..<Suc n] @ k # rev [lo..<k]"
proof -
  obtain d where d: "Suc n = k + Suc d"
    using assms(2) by (metis add_Suc_right le_Suc_ex)
  have "[lo..<k + Suc d] = [lo..<k] @ [k..<k + Suc d]"
    using assms(1) by (rule upt_add_eq_append)
  moreover have "[k..<k + Suc d] = k # [Suc k..<k + Suc d]"
    by (simp add: upt_conv_Cons del: upt_Suc)
  ultimately have "[lo..<Suc n] = [lo..<k] @ k # [Suc k..<Suc n]"
    using d by simp
  then show ?thesis by simp
qed

lemma greedy_first:
  assumes atom: "\<And>st. matchR ml r st = consume p st"
    and k: "lo \<le> k" "k \<le> length (takeWhile p s)"
    and later: "\<And>j. k < j \<Longrightarrow> j \<le> length (takeWhile p s)
                  \<Longrightarrow> matchR ml r2 (rev (take j s) @ b, drop j s, cs) = []"
    and here: "firstIs ml r2 (rev (take k s) @ b, drop k s, cs) y"
  shows "firstIs ml (Seq (Rep lo None True r) r2) (b, s, cs) y"
proof -
  let ?n = "length (takeWhile p s)"
  let ?F = "\<lambda>j. matchR ml r2 (rev (take j s) @ b, drop j s, cs)"
  have "matchR ml (Seq (Rep lo None True r) r2) (b, s, cs)
        = concat (map ?F (rev [Suc k..<Suc ?n] @ k # rev [lo..<k]))"
    by (simp add: rep_atom_greedy[OF atom] rev_upt_split[OF k] comp_def del: upt_Suc)
  moreover have "\<forall>z\<in>set (rev [Suc k..<Suc ?n]). ?F z = []"
    using later by auto
  moreover obtain ys where "?F k = y # ys"
    using here by (auto simp: firstIs_def)
  ultimately show ?thesis
    using concat_first[of "rev [Suc k..<Suc ?n]" ?F k y ys "rev [lo..<k]"]
    by (simp add: firstIs_def)
qed

lemma space_LF: "isSpace LF" by (simp add: isSpace_def LF_def)

lemma bar_not_space: "\<not> isSpace (CHR ''|'')" by (simp add: isSpace_def)

lemma bar_not_LF: "CHR ''|'' \<noteq> LF" by (simp add: LF_def)

text \<open>the part after the closing bar\<close>

lemma row_tail_first:
  assumes Ws: "\<forall>c\<in>set Ws. isSpace c" and y: "LF \<notin> set (takeWhile isSpace y)"
  shows "firstIs ml (Seq (Rep 0 None True (Cls [CSpace])) (Lit LF)) (b, Ws @ LF # y, cs)
           (rev (Ws @ [LF]) @ b, y, cs)"
proof (rule greedy_first[where p = "\<lambda>x. inClass x [CSpace]" and k = "length Ws"])
  let ?s = "Ws @ LF # y"
  have tw: "takeWhile (\<lambda>x. inClass x [CSpace]) ?s = Ws @ LF # takeWhile isSpace y"
    using Ws by (simp add: takeWhile_append2 inClass_def space_LF)
  show "length Ws \<le> length (takeWhile (\<lambda>x. inClass x [CSpace]) ?s)"
    by (simp add: tw)
  show "firstIs ml (Lit LF) (rev (take (length Ws) ?s) @ b, drop (length Ws) ?s, cs)
          (rev (Ws @ [LF]) @ b, y, cs)"
    by (simp add: firstIs_def)
  fix j assume j: "length Ws < j" "j \<le> length (takeWhile (\<lambda>x. inClass x [CSpace]) ?s)"
  then obtain i where i: "j = Suc (length Ws + i)" "i \<le> length (takeWhile isSpace y)"
    by (auto simp: tw less_iff_Suc_add)
  have d: "drop j ?s = drop i y" by (simp add: i)
  have "drop i y = [] \<or> hd (drop i y) \<noteq> LF"
  proof (cases "i < length (takeWhile isSpace y)")
    case True
    then have "i < length y" using length_takeWhile_le[of isSpace y] by simp
    moreover have "y ! i = takeWhile isSpace y ! i" using True by (simp add: takeWhile_nth)
    moreover have "takeWhile isSpace y ! i \<in> set (takeWhile isSpace y)" using True by simp
    ultimately show ?thesis using y by (auto simp: hd_drop_conv_nth)
  next
    case False
    with i have e: "i = length (takeWhile isSpace y)" by simp
    show ?thesis
    proof (cases "drop i y")
      case Nil then show ?thesis by simp
    next
      case (Cons a l)
      then have "dropWhile isSpace y = a # l"
        unfolding e by (metis dropWhile_eq_drop)
      then have "\<not> isSpace a" by (metis hd_dropWhile list.sel(1) list.distinct(1))
      then show ?thesis using Cons space_LF by auto
    qed
  qed
  then show "matchR ml (Lit LF) (rev (take j ?s) @ b, drop j ?s, cs) = []"
    unfolding d by (cases "drop i y") auto
qed auto

lemma row_first:
  assumes "rowShape u r y"
  shows "firstIs ml rowRegex (b, u, cs) (rev r @ b, y, cs)"
proof -
  from assms obtain X Ws where r: "r = CHR ''|'' # X @ CHR ''|'' # Ws @ [LF]" and u: "u = r @ y"
    and X: "X \<noteq> []" "LF \<notin> set X" and Ws: "\<forall>c\<in>set Ws. isSpace c"
    and y: "LF \<notin> set (takeWhile isSpace y)"
    by (auto simp: rowShape_def)
  let ?v = "X @ CHR ''|'' # Ws @ LF # y"
  let ?b1 = "CHR ''|'' # b"
  let ?p = "\<lambda>x. \<not> inClass x [CChar LF]"
  let ?K = "Seq (Lit (CHR ''|'')) (Seq (Rep 0 None True (Cls [CSpace])) (Lit LF))"
  have "takeWhile (\<lambda>x. x \<noteq> LF) (Ws @ LF # y) = takeWhile (\<lambda>x. x \<noteq> LF) Ws"
    by (rule takeWhile_tail) simp
  moreover have "takeWhile (\<lambda>x. x \<noteq> LF) (X @ CHR ''|'' # Ws @ LF # y)
      = X @ takeWhile (\<lambda>x. x \<noteq> LF) (CHR ''|'' # Ws @ LF # y)"
    using X(2) by (intro takeWhile_append2) auto
  ultimately have tw: "takeWhile ?p ?v = X @ CHR ''|'' # takeWhile (\<lambda>x. x \<noteq> LF) Ws"
    by (simp add: inClass_def bar_not_LF)
  have tail: "firstIs ml ?K (rev X @ ?b1, CHR ''|'' # Ws @ LF # y, cs) (rev r @ b, y, cs)"
    using row_tail_first[OF Ws y, of ml "CHR ''|'' # rev X @ ?b1" cs]
    by (intro firstIs_seq[OF firstIs_lit]) (simp add: r)
  have "firstIs ml (Seq (Rep 1 None True (NCls [CChar LF])) ?K) (?b1, ?v, cs) (rev r @ b, y, cs)"
  proof (rule greedy_first[where p = ?p and k = "length X"])
    show "1 \<le> length X" using X(1) by (simp add: Suc_le_eq)
    show "length X \<le> length (takeWhile ?p ?v)" by (simp add: tw)
    show "firstIs ml ?K (rev (take (length X) ?v) @ ?b1, drop (length X) ?v, cs) (rev r @ b, y, cs)"
      using tail by simp
    fix j assume j: "length X < j" "j \<le> length (takeWhile ?p ?v)"
    then obtain i where i: "j = Suc (length X + i)" "i \<le> length (takeWhile (\<lambda>x. x \<noteq> LF) Ws)"
      by (auto simp: tw less_iff_Suc_add)
    have d: "drop j ?v = drop i Ws @ LF # y"
      using i length_takeWhile_le[of "\<lambda>x. x \<noteq> LF" Ws] by simp
    have "hd (drop i Ws @ LF # y) \<noteq> CHR ''|''"
    proof (cases "drop i Ws")
      case Nil then show ?thesis by (simp add: bar_not_LF[symmetric])
    next
      case (Cons a l)
      then have "a \<in> set Ws" by (metis in_set_dropD list.set_intros(1))
      then show ?thesis using Ws Cons bar_not_space by auto
    qed
    then show "matchR ml ?K (rev (take j ?v) @ ?b1, drop j ?v, cs) = []"
      unfolding d by (cases "drop i Ws @ LF # y") auto
  qed auto
  then have "firstIs ml (Seq (Lit (CHR ''|'')) (Seq (Rep 1 None True (NCls [CChar LF])) ?K))
               (b, CHR ''|'' # ?v, cs) (rev r @ b, y, cs)"
    by (rule firstIs_seq[OF firstIs_lit])
  then show ?thesis by (simp add: rowRegex_def u r)
qed

lemma take_le_takeWhile:
  "j \<le> length (takeWhile P xs) \<Longrightarrow> \<forall>c\<in>set (take j xs). P c"
proof (induction xs arbitrary: j)
  case (Cons x xs)
  then show ?case by (cases j) (auto split: if_splits)
qed simp

lemma takeWhile_dropWhile_nil: "takeWhile P (dropWhile P xs) = []"
  by (induction xs) auto

lemma ws_split:
  assumes "drop j w = LF # z" "j \<le> length (takeWhile isSpace w)"
  shows "\<exists>Ws y. w = Ws @ LF # y \<and> (\<forall>c\<in>set Ws. isSpace c) \<and> LF \<notin> set (takeWhile isSpace y)"
proof -
  let ?R = "takeWhile isSpace w" and ?D = "dropWhile isSpace w"
  have w: "w = take j w @ LF # z" using assms(1) by (metis append_take_drop_id)
  have A: "\<forall>c\<in>set (take j w). isSpace c" using assms(2) by (rule take_le_takeWhile)
  have "takeWhile isSpace (take j w @ LF # z) = take j w @ LF # takeWhile isSpace z"
    using A by (simp add: takeWhile_append2 space_LF)
  with w have "LF \<in> set ?R" by (metis in_set_conv_decomp)
  then obtain R1 R2 where R: "?R = R1 @ LF # R2" "LF \<notin> set R2"
    by (metis split_list_last)
  have sp: "\<forall>c\<in>set ?R. isSpace c" by (metis set_takeWhileD)
  have "w = ?R @ ?D" by simp
  then have 1: "w = R1 @ LF # (R2 @ ?D)" using R(1) by simp
  have "takeWhile isSpace (R2 @ ?D) = R2 @ takeWhile isSpace ?D"
    using sp R(1) by (intro takeWhile_append2) auto
  then have 2: "LF \<notin> set (takeWhile isSpace (R2 @ ?D))"
    using R(2) by (simp add: takeWhile_dropWhile_nil)
  have 3: "\<forall>c\<in>set R1. isSpace c" using sp R(1) by auto
  show ?thesis using 1 2 3 by blast
qed

lemma greedy_nonempty:
  assumes atom: "\<And>st. matchR ml r st = consume p st"
    and ne: "matchR ml (Seq (Rep lo None True r) r2) (b, s, cs) \<noteq> []"
  obtains k where "lo \<le> k" "k \<le> length (takeWhile p s)"
    "matchR ml r2 (rev (take k s) @ b, drop k s, cs) \<noteq> []"
proof -
  from ne have "\<exists>x\<in>set (matchR ml (Rep lo None True r) (b, s, cs)). matchR ml r2 x \<noteq> []"
    by auto
  then obtain k where "k \<in> set [lo..<Suc (length (takeWhile p s))]"
    "matchR ml r2 (rev (take k s) @ b, drop k s, cs) \<noteq> []"
    unfolding rep_atom_greedy[OF atom] by (auto simp del: upt_Suc)
  then show ?thesis using that by auto
qed

lemma row_char:
  assumes "matchR ml rowRegex (b, u, cs) \<noteq> []"
  shows "\<exists>r y. rowShape u r y"
proof -
  let ?K2 = "Seq (Rep 0 None True (Cls [CSpace])) (Lit LF)"
  let ?K = "Seq (Lit (CHR ''|'')) ?K2"
  let ?R1 = "Seq (Rep 1 None True (NCls [CChar LF])) ?K"
  have rr: "rowRegex = Seq (Lit (CHR ''|'')) ?R1" by (simp add: rowRegex_def)
  from assms obtain v where u: "u = CHR ''|'' # v" and 1: "matchR ml ?R1 (CHR ''|'' # b, v, cs) \<noteq> []"
    unfolding rr by (cases u) (auto split: if_splits)
  let ?n = "length (takeWhile (\<lambda>x. \<not> inClass x [CChar LF]) v)"
  from greedy_nonempty[OF matchR.simps(5) 1] obtain k where k: "1 \<le> k" "k \<le> ?n"
    and 2: "matchR ml ?K (rev (take k v) @ CHR ''|'' # b, drop k v, cs) \<noteq> []"
    by blast
  have "\<exists>w. drop k v = CHR ''|'' # w
      \<and> matchR ml ?K2 (CHR ''|'' # rev (take k v) @ CHR ''|'' # b, w, cs) \<noteq> []"
  proof (cases "drop k v")
    case Nil
    with 2 show ?thesis by (simp only: matchR.simps(8) matchR.simps(1) consume.simps) simp
  next
    case (Cons a w)
    with 2 have "a = CHR ''|''"
      by (simp only: matchR.simps(8) matchR.simps(1) consume.simps) (auto split: if_splits)
    with 2 Cons show ?thesis
      by (simp only: matchR.simps(8) matchR.simps(1) consume.simps) (auto split: if_splits)
  qed
  then obtain w where dk: "drop k v = CHR ''|'' # w"
    and 3: "matchR ml ?K2 (CHR ''|'' # rev (take k v) @ CHR ''|'' # b, w, cs) \<noteq> []"
    by blast
  from greedy_nonempty[OF matchR.simps(4) 3] obtain j where j: "j \<le> length (takeWhile (\<lambda>x. inClass x [CSpace]) w)"
    and 4: "matchR ml (Lit LF) (rev (take j w) @ CHR ''|'' # rev (take k v) @ CHR ''|'' # b, drop j w, cs) \<noteq> []"
    by blast
  from 4 obtain z where dj: "drop j w = LF # z"
    by (cases "drop j w") (auto split: if_splits)
  have j': "j \<le> length (takeWhile isSpace w)"
    using j by (simp add: inClass_def)
  from ws_split[OF dj j'] obtain Ws y where
    w: "w = Ws @ LF # y" "\<forall>c\<in>set Ws. isSpace c" "LF \<notin> set (takeWhile isSpace y)"
    by blast
  let ?X = "take k v"
  have v: "v = ?X @ CHR ''|'' # w" using dk by (metis append_take_drop_id)
  have "k \<le> length v" using dk by (cases "k \<le> length v") auto
  then have X1: "?X \<noteq> []" using k(1) by (cases v) auto
  have "\<forall>c\<in>set ?X. \<not> inClass c [CChar LF]" using k(2) by (rule take_le_takeWhile)
  then have X2: "LF \<notin> set ?X" by (auto simp: inClass_def)
  have "rowShape u (CHR ''|'' # ?X @ CHR ''|'' # Ws @ [LF]) y"
    unfolding rowShape_def using u v w X1 X2 by (intro exI[of _ ?X] exI[of _ Ws]) auto
  then show ?thesis by blast
qed

subsection \<open>Runs of rows\<close>

lemma rowRest_shape: "rowShape u r y \<Longrightarrow> rowRest u = Some y"
  using row_first[of u r y False "[]" "[]"] by (auto simp: rowRest_def firstIs_def)

lemma rowRest_Some: "rowRest u = Some y \<Longrightarrow> \<exists>r. rowShape u r y"
proof -
  assume a: "rowRest u = Some y"
  then have "matchR False rowRegex ([], u, []) \<noteq> []" by (auto simp: rowRest_def)
  from row_char[OF this] obtain r y' where s: "rowShape u r y'" by blast
  from rowRest_shape[OF s] a have "y' = y" by simp
  with s show ?thesis by blast
qed

lemma rowRest_None: "rowRest u = None \<Longrightarrow> matchR ml rowRegex (b, u, cs) = []"
proof (rule ccontr)
  assume a: "rowRest u = None" and "matchR ml rowRegex (b, u, cs) \<noteq> []"
  from row_char[OF this(2)] obtain r y where "rowShape u r y" by blast
  from rowRest_shape[OF this] a show False by simp
qed

lemma rowShape_len: "rowShape u r y \<Longrightarrow> u = r @ y \<and> r \<noteq> [] \<and> hd r = CHR ''|'' \<and> last r = LF"
  by (auto simp: rowShape_def)

lemma rowRest_shorter: "rowRest u = Some y \<Longrightarrow> length y < length u"
  using rowRest_Some[of u y] by (auto simp: rowShape_def)

lemma rowsRest_None: "rowRest u = None \<Longrightarrow> rowsRest u = u"
  by (subst rowsRest.simps) simp

lemma rowsRest_Some: "rowRest u = Some y \<Longrightarrow> rowsRest u = rowsRest y"
  using rowRest_shorter[of u y] by (subst rowsRest.simps) simp

lemma rows_split: "u = block u @ rowsRest u"
proof (induction u rule: rowsRest.induct)
  case (1 u)
  show ?case
  proof (cases "rowRest u")
    case None
    then show ?thesis by (simp add: block_def rowsRest_None)
  next
    case (Some y)
    then obtain r where r: "rowShape u r y" using rowRest_Some by blast
    then have u: "u = r @ y" by (auto simp: rowShape_def)
    from "1.IH"[OF Some rowRest_shorter[OF Some]] have y: "y = block y @ rowsRest y" .
    have "length (rowsRest y) \<le> length y" by (metis y length_append le_add2)
    then have "block u = r @ block y"
      using u rowsRest_Some[OF Some] by (simp add: block_def)
    then have "block u @ rowsRest u = r @ (block y @ rowsRest y)"
      by (simp add: rowsRest_Some[OF Some])
    then show ?thesis using u y by metis
  qed
qed

lemma block_None: "rowRest u = None \<Longrightarrow> block u = []"
  by (simp add: block_def rowsRest_None)

lemma block_Some:
  assumes "rowRest u = Some y" "rowShape u r y"
  shows "block u = r @ block y"
proof -
  have u: "u = r @ y" using assms(2) by (auto simp: rowShape_def)
  have "length (rowsRest y) \<le> length y" by (metis rows_split[of y] length_append le_add2)
  then show ?thesis using u rowsRest_Some[OF assms(1)] by (simp add: block_def)
qed

lemma star_rows:
  "firstIs ml (Rep 0 None True rowRegex) (b, u, cs) (rev (block u) @ b, rowsRest u, cs)"
proof (induction u arbitrary: b rule: rowsRest.induct)
  case (1 u)
  show ?case
  proof (cases "rowRest u")
    case None
    then show ?thesis
      using firstIs_rep_stop[OF rowRest_None[OF None]] by (simp add: block_None rowsRest_None)
  next
    case (Some y)
    then obtain r where r: "rowShape u r y" using rowRest_Some by blast
    have f: "firstIs ml rowRegex (b, u, cs) (rev r @ b, y, cs)" by (rule row_first[OF r])
    have ih: "firstIs ml (Rep (0 - 1) None True rowRegex) (rev r @ b, y, cs)
                (rev (block y) @ rev r @ b, rowsRest y, cs)"
      using "1.IH"[OF Some rowRest_shorter[OF Some]] by simp
    show ?thesis
      using firstIs_rep_step[OF f rowRest_shorter[OF Some] ih]
      by (simp add: block_Some[OF Some r] rowsRest_Some[OF Some])
  qed
qed

lemma plus_rows:
  assumes "rowRest u = Some y"
  shows "firstIs ml (Rep 1 None True rowRegex) (b, u, cs) (rev (block u) @ b, rowsRest u, cs)"
proof -
  from assms obtain r where r: "rowShape u r y" using rowRest_Some by blast
  have f: "firstIs ml rowRegex (b, u, cs) (rev r @ b, y, cs)" by (rule row_first[OF r])
  have s: "firstIs ml (Rep (1 - 1) None True rowRegex) (rev r @ b, y, cs)
             (rev (block y) @ rev r @ b, rowsRest y, cs)"
    using star_rows[of ml "rev r @ b" y cs] by simp
  show ?thesis
    using firstIs_rep_step[OF f rowRest_shorter[OF assms] s]
    by (simp add: block_Some[OF assms r] rowsRest_Some[OF assms])
qed

lemma plus_none: "rowRest u = None \<Longrightarrow> matchR ml (Rep 1 None True rowRegex) (b, u, cs) = []"
  by (intro no_rep rowRest_None) auto

lemma rowRest_rowsRest: "rowRest (rowsRest u) = None"
proof (induction u rule: rowsRest.induct)
  case (1 u)
  show ?case
  proof (cases "rowRest u")
    case None then show ?thesis by (simp add: rowsRest_None)
  next
    case (Some y)
    then show ?thesis using "1.IH"[OF Some rowRest_shorter[OF Some]] by (simp add: rowsRest_Some)
  qed
qed

lemma rowShape_noLFws: "rowShape u r y \<Longrightarrow> noLFws y"
  by (auto simp: rowShape_def noLFws_def)

lemma rowsRest_noLFws: "rowRest u \<noteq> None \<Longrightarrow> noLFws (rowsRest u)"
proof (induction u rule: rowsRest.induct)
  case (1 u)
  from "1.prems" obtain y where Some: "rowRest u = Some y" by auto
  then obtain r where r: "rowShape u r y" using rowRest_Some by blast
  show ?case
  proof (cases "rowRest y")
    case None
    then show ?thesis using rowShape_noLFws[OF r] by (simp add: rowsRest_Some[OF Some] rowsRest_None)
  next
    case (Some z)
    then show ?thesis
      using "1.IH"[OF \<open>rowRest u = Some y\<close> rowRest_shorter[OF \<open>rowRest u = Some y\<close>]]
      by (simp add: rowsRest_Some[OF \<open>rowRest u = Some y\<close>])
  qed
qed

lemma block_hd: "rowRest u \<noteq> None \<Longrightarrow> block u \<noteq> [] \<and> hd (block u) = CHR ''|''"
proof -
  assume "rowRest u \<noteq> None"
  then obtain y where Some: "rowRest u = Some y" by auto
  then obtain r where r: "rowShape u r y" using rowRest_Some by blast
  then have "r \<noteq> []" "hd r = CHR ''|''" by (auto simp: rowShape_def)
  then show ?thesis by (simp add: block_Some[OF Some r])
qed

lemma rowShape_swap: "rowShape u r y \<Longrightarrow> noLFws z \<Longrightarrow> rowShape (r @ z) r z"
  by (auto simp: rowShape_def noLFws_def)

lemma noLFws_hd: "x \<noteq> [] \<Longrightarrow> \<not> isSpace (hd x) \<Longrightarrow> noLFws (x @ z)"
  by (cases x) (auto simp: noLFws_def)

lemma rows_stable:
  assumes "rowRest u \<noteq> None" "rowRest z = None" "noLFws z"
  shows "rowRest (block u @ z) \<noteq> None \<and> rowsRest (block u @ z) = z"
  using assms(1)
proof (induction u rule: rowsRest.induct)
  case (1 u)
  from "1.prems" obtain y where Some: "rowRest u = Some y" by auto
  then obtain r where r: "rowShape u r y" using rowRest_Some by blast
  show ?case
  proof (cases "rowRest y")
    case None
    have b: "block u = r" using block_Some[OF Some r] by (simp add: block_None[OF None])
    have "rowRest (r @ z) = Some z" by (rule rowRest_shape[OF rowShape_swap[OF r assms(3)]])
    then show ?thesis
      using assms(2) by (simp add: b rowsRest_Some rowsRest_None)
  next
    case (Some w)
    have b: "block u = r @ block y" by (rule block_Some[OF \<open>rowRest u = Some y\<close> r])
    have ih: "rowsRest (block y @ z) = z"
      using "1.IH"[OF \<open>rowRest u = Some y\<close> rowRest_shorter[OF \<open>rowRest u = Some y\<close>]] Some by simp
    have "noLFws (block y @ z)"
      using block_hd[of y] Some by (intro noLFws_hd) (auto simp: bar_not_space)
    then have "rowRest (r @ block y @ z) = Some (block y @ z)"
      by (intro rowRest_shape[OF rowShape_swap[OF r]])
    then show ?thesis
      using ih by (simp add: b rowsRest_Some)
  qed
qed

lemma block_stable:
  assumes "rowRest u \<noteq> None" "rowRest z = None" "noLFws z"
  shows "block (block u @ z) = block u"
  using rows_stable[OF assms] by (simp add: block_def)

subsection \<open>Steps of the replacement loop\<close>

lemma rowRest_not_bar: "s = [] \<or> hd s \<noteq> CHR ''|'' \<Longrightarrow> rowRest s = None"
proof (rule ccontr)
  assume a: "s = [] \<or> hd s \<noteq> CHR ''|''" and "rowRest s \<noteq> None"
  then obtain y where "rowRest s = Some y" by auto
  then obtain r where "rowShape s r y" using rowRest_Some by blast
  then show False using a by (auto simp: rowShape_def)
qed

lemma grp_first:
  assumes "rowRest u = Some y"
  shows "firstIs ml (Grp 1 (Rep 1 None True rowRegex)) (b, u, []) (rev (block u) @ b, rowsRest u, [(1, block u)])"
  using firstIs_grp[OF plus_rows[OF assms, of ml b "[]"], of 1] by (simp add: block_def)

lemma grp_none: "rowRest u = None \<Longrightarrow> matchR ml (Grp 1 (Rep 1 None True rowRegex)) (b, u, cs) = []"
  by (intro no_grp plus_none)

lemma tbl_lf:
  assumes "rowRest s1 = Some y"
  shows "firstIs False tableRegex (b, LF # s1, []) (rev (block s1) @ LF # b, rowsRest s1, [(1, block s1)])"
proof -
  have n: "matchR False (Grp 1 (Rep 1 None True rowRegex)) (b, LF # s1, []) = []"
    by (intro grp_none rowRest_not_bar) (simp add: bar_not_LF[symmetric])
  have "matchR False tableRegex (b, LF # s1, []) = matchR False (Grp 1 (Rep 1 None True rowRegex)) (LF # b, s1, [])"
    unfolding tableRegex_row using n by (simp del: matchR.simps(10))
  then show ?thesis using grp_first[OF assms, of False "LF # b"] by (simp add: firstIs_def)
qed

lemma tbl_bol:
  assumes "rowRest s = Some y"
  shows "firstIs False tableRegex ([], s, []) (rev (block s), rowsRest s, [(1, block s)])"
proof -
  obtain tl where "matchR False (Grp 1 (Rep 1 None True rowRegex)) ([], s, [])
      = (rev (block s) @ [], rowsRest s, [(1, block s)]) # tl"
    using grp_first[OF assms, of False "[]"] by (auto simp: firstIs_def)
  then show ?thesis
    unfolding tableRegex_row by (simp add: firstIs_def atBol_def del: matchR.simps(10))
qed

lemma tbl_none:
  assumes "b = [] \<longrightarrow> rowRest s = None" "\<And>s1. s = LF # s1 \<Longrightarrow> rowRest s1 = None"
  shows "matchR False tableRegex (b, s, []) = []"
proof -
  have 1: "matchR False (Grp 1 (Rep 1 None True rowRegex)) (b, s, []) = []" if "b = []"
    using that assms(1) by (intro grp_none) simp
  have 2: "matchR False (Grp 1 (Rep 1 None True rowRegex)) (LF # b, s1, []) = []" if "s = LF # s1" for s1
    using assms(2)[OF that] by (intro grp_none)
  show ?thesis
    unfolding tableRegex_row
    using 1 2 by (cases s) (auto simp: atBol_def simp del: matchR.simps(10) split: list.splits)
qed

lemma take_block: "take (length (p @ s1) - length (rowsRest s1)) (p @ s1) = p @ block s1"
proof -
  have "length (rowsRest s1) \<le> length s1" by (metis rows_split[of s1] length_append le_add2)
  then show ?thesis by (simp add: block_def)
qed

lemma rowsRest_shorter: "rowRest s \<noteq> None \<Longrightarrow> length (rowsRest s) < length s"
proof -
  assume "rowRest s \<noteq> None"
  then have "block s \<noteq> []" using block_hd by blast
  then show ?thesis by (metis rows_split[of s] length_append length_greater_0_conv less_add_same_cancel2)
qed

lemma scan_lf:
  assumes "rowRest s1 \<noteq> None"
  shows "scan b (LF # s1) = tableCallback (LF # block s1) [(1, block s1)]
                             @ scan (rev (block s1) @ LF # b) (rowsRest s1)"
proof -
  from assms obtain y where y: "rowRest s1 = Some y" by auto
  have l: "length (rowsRest s1) < length (LF # s1)"
    using rowsRest_shorter[OF assms] by simp
  show ?thesis
    using replaceFrom_match[OF tbl_lf[OF y] l, of tableCallback] take_block[of "[LF]" s1]
    by simp
qed

lemma scan_bol:
  assumes "rowRest s \<noteq> None"
  shows "scan [] s = tableCallback (block s) [(1, block s)] @ scan (rev (block s)) (rowsRest s)"
proof -
  from assms obtain y where y: "rowRest s = Some y" by auto
  show ?thesis
    using replaceFrom_match[OF tbl_bol[OF y] rowsRest_shorter[OF assms], of tableCallback]
      take_block[of "[]" s]
    by simp
qed

lemma scan_skip:
  assumes "b = [] \<longrightarrow> rowRest (x # xs) = None" "x = LF \<longrightarrow> rowRest xs = None"
  shows "scan b (x # xs) = x # scan (x # b) xs"
  using assms by (intro replaceFrom_skip tbl_none) auto

lemma scan_nil: "scan b [] = []"
  by (intro replaceFrom_end tbl_none) (auto intro: rowRest_not_bar)

subsection \<open>First lines\<close>

lemma fl_LF: "firstLine (LF # v) = ([], True)" by (simp add: firstLine_def)

lemma fl_Cons: "x \<noteq> LF \<Longrightarrow> firstLine (x # v) = (x # fst (firstLine v), snd (firstLine v))" by (simp add: firstLine_def)

lemma split_first_line:
  "LF \<in> set v \<Longrightarrow> \<exists>rest. v = takeWhile (\<lambda>x. x \<noteq> LF) v @ LF # rest"
proof -
  assume "LF \<in> set v"
  then have "dropWhile (\<lambda>x. x \<noteq> LF) v \<noteq> []" by (simp add: dropWhile_eq_Nil_conv)
  then obtain a rest where d: "dropWhile (\<lambda>x. x \<noteq> LF) v = a # rest" by (cases "dropWhile (\<lambda>x. x \<noteq> LF) v") auto
  then have "a = LF" by (metis (mono_tags, lifting) hd_dropWhile list.sel(1) list.distinct(1))
  with d show ?thesis by (metis takeWhile_dropWhile_id)
qed

lemma rowRest_rowLine: "rowRest v \<noteq> None \<longleftrightarrow> rowLine (firstLine v)"
proof
  assume "rowRest v \<noteq> None"
  then obtain y r where "rowShape v r y" using rowRest_Some by fastforce
  then obtain X Ws where v: "v = CHR ''|'' # X @ CHR ''|'' # Ws @ LF # y" and X: "X \<noteq> []" "LF \<notin> set X"
    and Ws: "\<forall>c\<in>set Ws. isSpace c"
    by (auto simp: rowShape_def)
  have "takeWhile (\<lambda>x. x \<noteq> LF) (Ws @ LF # y) = takeWhile (\<lambda>x. x \<noteq> LF) Ws"
    by (rule takeWhile_tail) simp
  moreover have "takeWhile (\<lambda>x. x \<noteq> LF) (X @ CHR ''|'' # Ws @ LF # y)
      = X @ takeWhile (\<lambda>x. x \<noteq> LF) (CHR ''|'' # Ws @ LF # y)"
    using X(2) by (intro takeWhile_append2) auto
  ultimately have "fst (firstLine v) = CHR ''|'' # X @ CHR ''|'' # takeWhile (\<lambda>x. x \<noteq> LF) Ws"
    by (simp add: firstLine_def v bar_not_LF)
  moreover have "\<forall>c\<in>set (takeWhile (\<lambda>x. x \<noteq> LF) Ws). isSpace c"
    using Ws by (meson set_takeWhileD)
  moreover have "snd (firstLine v)" by (simp add: firstLine_def v)
  ultimately show "rowLine (firstLine v)" using X(1) by (auto simp: rowLine_def)
next
  assume "rowLine (firstLine v)"
  then obtain X Wl where lf: "LF \<in> set v" and L: "takeWhile (\<lambda>x. x \<noteq> LF) v = CHR ''|'' # X @ CHR ''|'' # Wl"
    and X: "X \<noteq> []" and Wl: "\<forall>c\<in>set Wl. isSpace c"
    by (auto simp: rowLine_def firstLine_def)
  from split_first_line[OF lf] L obtain rest where v: "v = CHR ''|'' # X @ CHR ''|'' # Wl @ LF # rest"
    by auto
  have "LF \<notin> set (takeWhile (\<lambda>x. x \<noteq> LF) v)" by (auto dest: set_takeWhileD)
  then have X2: "LF \<notin> set X" unfolding L by simp
  have "length Wl \<le> length (takeWhile isSpace (Wl @ LF # rest))"
    using Wl by (simp add: takeWhile_append2)
  from ws_split[of "length Wl" "Wl @ LF # rest" rest, OF _ this] obtain Ws y where
    w: "Wl @ LF # rest = Ws @ LF # y" "\<forall>c\<in>set Ws. isSpace c" "LF \<notin> set (takeWhile isSpace y)"
    by auto
  have "rowShape v (CHR ''|'' # X @ CHR ''|'' # Ws @ [LF]) y"
    unfolding rowShape_def using v w X X2 by (intro exI[of _ X] exI[of _ Ws]) auto
  then show "rowRest v \<noteq> None" using rowRest_shape by fastforce
qed

lemma noLFws_fl: "noLFws v \<longleftrightarrow> \<not> (snd (firstLine v) \<and> (\<forall>c\<in>set (fst (firstLine v)). isSpace c))"
proof (cases "LF \<in> set v")
  case False
  then have "LF \<notin> set (takeWhile isSpace v)" by (meson set_takeWhileD)
  with False show ?thesis by (simp add: noLFws_def firstLine_def)
next
  case True
  let ?L = "takeWhile (\<lambda>x. x \<noteq> LF) v"
  from split_first_line[OF True] obtain rest where v: "v = ?L @ LF # rest" by blast
  show ?thesis
  proof (cases "\<forall>c\<in>set ?L. isSpace c")
    case all: True
    have "takeWhile isSpace (?L @ LF # rest) = ?L @ takeWhile isSpace (LF # rest)"
      using all by (intro takeWhile_append2) auto
    then have "LF \<in> set (takeWhile isSpace (?L @ LF # rest))" by (simp add: space_LF)
    then have "LF \<in> set (takeWhile isSpace v)" using v by simp
    with True all show ?thesis by (simp add: noLFws_def firstLine_def)
  next
    case False
    then obtain c where c: "c \<in> set ?L" "\<not> isSpace c" by blast
    have "takeWhile isSpace (?L @ LF # rest) = takeWhile isSpace ?L"
      using c by (intro takeWhile_append1) auto
    then have "takeWhile isSpace v = takeWhile isSpace ?L" using v by simp
    moreover have "LF \<notin> set ?L" by (auto dest: set_takeWhileD)
    ultimately have "LF \<notin> set (takeWhile isSpace v)" by (metis set_takeWhileD)
    with False show ?thesis by (simp add: noLFws_def firstLine_def)
  qed
qed

subsection \<open>The shape of an emitted table\<close>

lemma okLF_noLF: "LF \<notin> set x \<Longrightarrow> okLF x"
  by (induction x rule: okLF.induct) auto

lemma okLF_append:
  "okLF a \<Longrightarrow> okLF b \<Longrightarrow> (a \<noteq> [] \<longrightarrow> last a = LF \<longrightarrow> b = [] \<or> hd b = CHR ''<'') \<Longrightarrow> okLF (a @ b)"
proof (induction a rule: okLF.induct)
  case 1
  then show ?case by simp
next
  case (2 c)
  then show ?case by (cases b) auto
next
  case (3 c d s)
  then show ?case by auto
qed

lemma tagLines_append: "tagLines a \<Longrightarrow> tagLines b \<Longrightarrow> tagLines (a @ b)"
  by (cases "a = []"; cases "b = []") (auto simp: tagLines_def intro!: okLF_append)

lemma tagLines_nil: "tagLines []" by (simp add: tagLines_def)

lemma tagLines_concat: "(\<forall>x\<in>set xs. tagLines x) \<Longrightarrow> tagLines (concat xs)"
  by (induction xs) (auto simp: tagLines_nil intro: tagLines_append)

lemma tagLines_line: "LF \<notin> set x \<Longrightarrow> tagLines (CHR ''<'' # x @ [LF])"
proof -
  assume x: "LF \<notin> set x"
  have a: "okLF (CHR ''<'' # x)" using x by (intro okLF_noLF) (simp add: LF_def)
  have b: "okLF [LF]" by simp
  have c: "last (CHR ''<'' # x) \<noteq> LF"
  proof (cases "x = []")
    case True
    then show ?thesis by (simp add: LF_def)
  next
    case False
    then have "last (CHR ''<'' # x) = last x" by simp
    then show ?thesis using x False last_in_set[of x] by metis
  qed
  have "okLF ((CHR ''<'' # x) @ [LF])"
    by (rule okLF_append[OF a b]) (use c in blast)
  then show ?thesis by (simp add: tagLines_def)
qed

lemma splitAcc_noSep: "c \<notin> set acc \<Longrightarrow> \<forall>x\<in>set (splitAcc c acc s). c \<notin> set x"
proof (induction s arbitrary: acc)
  case Nil
  then show ?case by simp
next
  case (Cons a s)
  show ?case using Cons.prems Cons.IH[of "[]"] Cons.IH[of "a # acc"] by auto
qed

lemma splitAcc_subset: "\<forall>x\<in>set (splitAcc c acc s). set x \<subseteq> set acc \<union> set s"
proof (induction s arbitrary: acc)
  case Nil
  then show ?case by simp
next
  case (Cons a s)
  show ?case using Cons[of "[]"] Cons[of "a # acc"] by auto
qed

lemma trim_subset: "set (trim s) \<subseteq> set s"
proof -
  have "set (trimEnd t) \<subseteq> set t" for t
    unfolding trimEnd_def by (metis set_dropWhileD set_rev subsetI)
  moreover have "set (trimStart s) \<subseteq> set s"
    unfolding trimStart_def by (meson set_dropWhileD subsetI)
  ultimately show ?thesis unfolding trim_def by blast
qed

lemma blockLines_noLF: "l \<in> set (blockLines blk) \<Longrightarrow> LF \<notin> set l"
  using splitAcc_noSep[of LF "[]"] by (auto simp: blockLines_def split_def)

lemma parseTableRow_subset: "cell \<in> set (parseTableRow line) \<Longrightarrow> set cell \<subseteq> set line"
proof -
  assume a: "cell \<in> set (parseTableRow line)"
  define t1 where "t1 = trim line"
  define t2 where "t2 = (if startsWith t1 ''|'' then drop 1 t1 else t1)"
  define t3 where "t3 = (if endsWith t2 ''|'' then butlast t2 else t2)"
  have 1: "set t1 \<subseteq> set line" unfolding t1_def by (rule trim_subset)
  have 2: "set t2 \<subseteq> set t1" unfolding t2_def by (auto dest: in_set_dropD)
  have 3: "set t3 \<subseteq> set t2" unfolding t3_def by (auto dest: in_set_butlastD)
  have "cell \<in> set (map trim (split t3 (CHR ''|'')))"
    using a unfolding parseTableRow_def Let_def t3_def t2_def t1_def .
  then obtain p where p: "p \<in> set (split t3 (CHR ''|''))" "cell = trim p" by auto
  have "set p \<subseteq> set t3" using splitAcc_subset[of "CHR ''|''" "[]" t3] p(1) by (simp add: split_def)
  then show ?thesis using 1 2 3 trim_subset[of p] p(2) by blast
qed

lemma alignAt_noLF: "LF \<notin> set (alignAt (parseAlignment line) i)"
  by (auto simp: alignAt_def parseAlignment_def Let_def LF_def)

lemma tableCells_tagLines:
  assumes "LF \<notin> set tag" "\<forall>cell\<in>set cells. LF \<notin> set cell"
  shows "tagLines (tableCells tag (parseAlignment sep) cells)"
proof -
  have "tagLines (''<'' @ tag @ '' style=\"text-align:'' @ alignAt (parseAlignment sep) i @ ''\">'' @ cell
                  @ ''</'' @ tag @ ''>\<newline>'')"
    if "cell \<in> set cells" for i cell
  proof -
    have "LF \<notin> set (tag @ '' style=\"text-align:'' @ alignAt (parseAlignment sep) i @ ''\">'' @ cell
                  @ ''</'' @ tag @ ''>'')"
      using assms that alignAt_noLF[of sep i] by (auto simp: LF_def)
    from tagLines_line[OF this] show ?thesis by (simp add: LF_def)
  qed
  then show ?thesis
    unfolding tableCells_def by (intro tagLines_concat) (auto dest: in_set_enumerate_eq[THEN iffD1] simp: in_set_enumerate_eq)
qed

lemma tableRow_tagLines:
  assumes "LF \<notin> set tag" "LF \<notin> set line"
  shows "tagLines (tableRowHTML tag (parseAlignment sep) line)"
proof -
  have c: "tagLines (tableCells tag (parseAlignment sep) (parseTableRow line))"
    using assms parseTableRow_subset[of _ line] by (intro tableCells_tagLines) auto
  have a: "tagLines ''<tr>\<newline>''" using tagLines_line[of "''tr>''"] by (simp add: LF_def)
  have b: "tagLines ''</tr>\<newline>''" using tagLines_line[of "''/tr>''"] by (simp add: LF_def)
  show ?thesis
    unfolding tableRowHTML_def using a b c by (intro tagLines_append) auto
qed

lemma tableCallback_cases:
  "tableCallback m cs = m \<or> (\<exists>h. tableCallback m cs = LF # h \<and> h \<noteq> [] \<and> tagLines h)"
proof -
  define lines where "lines = blockLines (cap cs 1)"
  define sep where "sep = nat (separatorLoop 0 lines)"
  define al where "al = parseAlignment (lines ! sep)"
  have ln: "\<forall>l\<in>set lines. LF \<notin> set l" unfolding lines_def using blockLines_noLF by blast
  have rows: "tagLines (concat (map (tableRowHTML tag al) ls))"
    if "LF \<notin> set tag" "set ls \<subseteq> set lines" for tag ls
    unfolding al_def using that ln by (intro tagLines_concat) (auto intro!: tableRow_tagLines)
  have t1: "tagLines ''<table class=\"markdown-table\">\<newline>''"
    using tagLines_line[of "''table class=\"markdown-table\">''"] by (simp add: LF_def)
  have t2: "tagLines ''<thead>\<newline>''" using tagLines_line[of "''thead>''"] by (simp add: LF_def)
  have t3: "tagLines ''</thead>\<newline>''" using tagLines_line[of "''/thead>''"] by (simp add: LF_def)
  have t4: "tagLines ''<tbody>\<newline>''" using tagLines_line[of "''tbody>''"] by (simp add: LF_def)
  have t5: "tagLines ''</tbody>\<newline>''" using tagLines_line[of "''/tbody>''"] by (simp add: LF_def)
  have t6: "tagLines ''</table>\<newline>''" using tagLines_line[of "''/table>''"] by (simp add: LF_def)
  let ?body = "(if sep < length lines - 1
                then ''<tbody>\<newline>'' @ concat (map (tableRowHTML ''td'' al) (drop (sep + 1) lines)) @ ''</tbody>\<newline>''
                else [])"
  let ?h = "''<table class=\"markdown-table\">\<newline>'' @ ''<thead>\<newline>''
            @ concat (map (tableRowHTML ''th'' al) (take sep lines)) @ ''</thead>\<newline>''
            @ ?body @ ''</table>\<newline>''"
  have rd: "tagLines (concat (map (tableRowHTML ''td'' al) (drop (sep + 1) lines)))"
    by (rule rows) (auto simp: LF_def dest: in_set_dropD)
  have rh: "tagLines (concat (map (tableRowHTML ''th'' al) (take sep lines)))"
    by (rule rows) (auto simp: LF_def dest: in_set_takeD)
  have body: "tagLines ?body"
  proof (cases "sep < length lines - 1")
    case True
    have "tagLines (''<tbody>\<newline>'' @ concat (map (tableRowHTML ''td'' al) (drop (sep + 1) lines)) @ ''</tbody>\<newline>'')"
      by (intro tagLines_append t4 t5 rd)
    then show ?thesis using True by (simp only: if_True)
  next
    case False
    then show ?thesis using tagLines_nil by (simp only: if_False)
  qed
  have h: "tagLines ?h"
    by (intro tagLines_append t1 t2 t3 t6 body rh)
  have "tableCallback m cs = m \<or> tableCallback m cs = LF # ?h"
    unfolding tableCallback_def Let_def lines_def[symmetric] sep_def[symmetric] al_def[symmetric]
    by (simp add: LF_def)
  moreover have "?h \<noteq> []" by simp
  ultimately show ?thesis using h by blast
qed

subsection \<open>The second pass\<close>

lemma scan_fl: "b \<noteq> [] \<Longrightarrow> firstLine (scan b s) = firstLine s"
proof (induction s arbitrary: b)
  case Nil
  then show ?case by (simp add: scan_nil)
next
  case (Cons x xs)
  show ?case
  proof (cases "x = LF \<and> rowRest xs \<noteq> None")
    case True
    then have 1: "scan b (x # xs) = tableCallback (LF # block xs) [(1, block xs)]
                     @ scan (rev (block xs) @ LF # b) (rowsRest xs)"
      using scan_lf[of xs b] by simp
    from tableCallback_cases[of "LF # block xs" "[(1, block xs)]"]
    obtain w where "tableCallback (LF # block xs) [(1, block xs)] = LF # w" by blast
    with 1 True show ?thesis by (simp add: fl_LF)
  next
    case False
    then have 1: "scan b (x # xs) = x # scan (x # b) xs"
      using Cons.prems by (intro scan_skip) auto
    have 2: "firstLine (scan (x # b) xs) = firstLine xs" by (rule Cons.IH) simp
    show ?thesis
    proof (cases "x = LF")
      case True
      then show ?thesis using 1 by (simp add: fl_LF)
    next
      case False
      then show ?thesis using 1 2 by (simp add: fl_Cons)
    qed
  qed
qed

lemma scan_rowRest: "b \<noteq> [] \<Longrightarrow> rowRest z = None \<Longrightarrow> rowRest (scan b z) = None"
  using rowRest_rowLine[of z] rowRest_rowLine[of "scan b z"] scan_fl[of b z] by simp

lemma scan_noLFws: "b \<noteq> [] \<Longrightarrow> noLFws z \<Longrightarrow> noLFws (scan b z)"
  using noLFws_fl[of z] noLFws_fl[of "scan b z"] scan_fl[of b z] by simp

lemma scan_tags:
  "okLF h \<Longrightarrow> rowRest v = None \<Longrightarrow> b \<noteq> [] \<Longrightarrow> scan b (h @ v) = h @ scan (rev h @ b) v"
proof (induction h arbitrary: b rule: okLF.induct)
  case 1
  then show ?case by simp
next
  case (2 c)
  have "scan b (c # v) = c # scan (c # b) v"
    using 2 by (intro scan_skip) auto
  then show ?case by simp
next
  case (3 c d s)
  have n: "c = LF \<longrightarrow> rowRest (d # s @ v) = None"
    using 3(2) by (auto intro!: rowRest_not_bar)
  have 1: "scan b (c # d # s @ v) = c # scan (c # b) (d # s @ v)"
    using 3(4) n by (intro scan_skip) auto
  have 2: "scan (c # b) ((d # s) @ v) = (d # s) @ scan (rev (d # s) @ c # b) v"
    using 3(2) 3(3) by (intro "3.IH") auto
  show ?case using 1 2 by simp
qed

lemma pass2_tags:
  assumes "tagLines h" "h \<noteq> []" "rowRest v = None"
  shows "scan b2 (LF # h @ v) = LF # h @ scan (rev h @ LF # b2) v"
proof -
  have h: "hd (h @ v) = CHR ''<''" "okLF h" using assms(1,2) by (auto simp: tagLines_def)
  have 1: "rowRest (h @ v) = None" using h(1) assms(2) by (intro rowRest_not_bar) simp
  have 2: "rowRest (LF # h @ v) = None" by (intro rowRest_not_bar) (simp add: LF_def)
  have 3: "scan b2 (LF # h @ v) = LF # scan (LF # b2) (h @ v)"
    using 1 2 by (intro scan_skip) auto
  have 4: "scan (LF # b2) (h @ v) = h @ scan (rev h @ LF # b2) v"
    using h(2) assms(3) by (intro scan_tags) auto
  show ?thesis using 3 4 by simp
qed

lemma pass2_block_lf:
  assumes "rowRest s1 \<noteq> None" "rowRest v = None" "noLFws v"
  shows "scan b2 (LF # block s1 @ v) = tableCallback (LF # block s1) [(1, block s1)]
                                        @ scan (rev (block s1) @ LF # b2) v"
  using scan_lf[of "block s1 @ v" b2] rows_stable[OF assms] block_stable[OF assms] by simp

lemma pass2_block_bol:
  assumes "rowRest s \<noteq> None" "rowRest v = None" "noLFws v"
  shows "scan [] (block s @ v) = tableCallback (block s) [(1, block s)] @ scan (rev (block s)) v"
  using scan_bol[of "block s @ v"] rows_stable[OF assms] block_stable[OF assms] by simp

lemma scan_idem: "(b = [] \<longleftrightarrow> b2 = []) \<Longrightarrow> scan b2 (scan b s) = scan b s"
proof (induction "length s" arbitrary: s b b2 rule: less_induct)
  case less
  note IH = less.hyps
  consider (bol) "b = []" "rowRest s \<noteq> None"
    | (lf) s1 where "s = LF # s1" "rowRest s1 \<noteq> None"
    | (skip) x xs where "s = x # xs" "b = [] \<longrightarrow> rowRest s = None" "x = LF \<longrightarrow> rowRest xs = None"
    | (nil) "s = []"
  proof (cases s)
    case Nil
    then show ?thesis using that(4) by simp
  next
    case (Cons x xs)
    show ?thesis
    proof (cases "b = [] \<and> rowRest s \<noteq> None")
      case True
      then show ?thesis using that(1) by simp
    next
      case F1: False
      show ?thesis
      proof (cases "x = LF \<and> rowRest xs \<noteq> None")
        case True
        then show ?thesis using that(2)[of xs] Cons by simp
      next
        case False
        show ?thesis using False Cons F1 by (intro that(3)[of x xs]) auto
      qed
    qed
  qed
  then show ?case
  proof cases
    case bol
    define bk where "bk = block s"
    define z where "z = rowsRest s"
    define v where "v = scan (rev bk) z"
    have b2: "b2 = []" using bol(1) less.prems by simp
    have bk: "bk \<noteq> []" using block_hd[OF bol(2)] by (simp add: bk_def)
    have len: "length z < length s" unfolding z_def by (rule rowsRest_shorter[OF bol(2)])
    have 1: "scan b s = tableCallback bk [(1, bk)] @ v"
      using scan_bol[OF bol(2)] bol(1) by (simp add: bk_def z_def v_def)
    have v1: "rowRest v = None" unfolding v_def z_def using bk by (intro scan_rowRest rowRest_rowsRest) simp
    have v2: "noLFws v" unfolding v_def z_def using bk by (intro scan_noLFws rowsRest_noLFws bol(2)) simp
    from tableCallback_cases[of bk "[(1, bk)]"] show ?thesis
    proof (elim disjE exE conjE)
      assume c: "tableCallback bk [(1, bk)] = bk"
      have "scan [] (bk @ v) = tableCallback bk [(1, bk)] @ scan (rev bk) v"
        unfolding bk_def by (rule pass2_block_bol[OF bol(2) v1 v2])
      moreover have "scan (rev bk) v = v" unfolding v_def using bk by (intro IH len) simp
      ultimately show ?thesis using 1 c b2 by simp
    next
      fix h assume c: "tableCallback bk [(1, bk)] = LF # h" and h: "h \<noteq> []" "tagLines h"
      have "scan [] (LF # h @ v) = LF # h @ scan (rev h @ [LF]) v"
        by (rule pass2_tags[OF h(2) h(1) v1])
      moreover have "scan (rev h @ [LF]) v = v" unfolding v_def using bk by (intro IH len) simp
      ultimately show ?thesis using 1 c b2 by simp
    qed
  next
    case (lf s1)
    define bk where "bk = block s1"
    define z where "z = rowsRest s1"
    define v where "v = scan (rev bk @ LF # b) z"
    have len: "length z < length s" unfolding z_def using rowsRest_shorter[OF lf(2)] lf(1) by simp
    have 1: "scan b s = tableCallback (LF # bk) [(1, bk)] @ v"
      using scan_lf[OF lf(2), of b] lf(1) by (simp add: bk_def z_def v_def)
    have v1: "rowRest v = None" unfolding v_def z_def by (intro scan_rowRest rowRest_rowsRest) simp
    have v2: "noLFws v" unfolding v_def z_def by (intro scan_noLFws rowsRest_noLFws lf(2)) simp
    from tableCallback_cases[of "LF # bk" "[(1, bk)]"] show ?thesis
    proof (elim disjE exE conjE)
      assume c: "tableCallback (LF # bk) [(1, bk)] = LF # bk"
      have "scan b2 (LF # bk @ v) = tableCallback (LF # bk) [(1, bk)] @ scan (rev bk @ LF # b2) v"
        unfolding bk_def by (rule pass2_block_lf[OF lf(2) v1 v2])
      moreover have "scan (rev bk @ LF # b2) v = v" unfolding v_def by (intro IH len) simp
      ultimately show ?thesis using 1 c by simp
    next
      fix h assume c: "tableCallback (LF # bk) [(1, bk)] = LF # h" and h: "h \<noteq> []" "tagLines h"
      have "scan b2 (LF # h @ v) = LF # h @ scan (rev h @ LF # b2) v"
        by (rule pass2_tags[OF h(2) h(1) v1])
      moreover have "scan (rev h @ LF # b2) v = v" unfolding v_def by (intro IH len) simp
      ultimately show ?thesis using 1 c by simp
    qed
  next
    case (skip x xs)
    define v where "v = scan (x # b) xs"
    have 1: "scan b s = x # v" unfolding v_def skip(1) using skip by (intro scan_skip) auto
    have f: "firstLine v = firstLine xs" unfolding v_def by (intro scan_fl) simp
    have f2: "firstLine (x # v) = firstLine (x # xs)" using f by (cases "x = LF") (simp_all add: fl_LF fl_Cons)
    have a: "b2 = [] \<longrightarrow> rowRest (x # v) = None"
      using skip(1,2) less.prems rowRest_rowLine[of "x # v"] rowRest_rowLine[of "x # xs"] f2 by auto
    have b: "x = LF \<longrightarrow> rowRest v = None"
      using skip(3) rowRest_rowLine[of v] rowRest_rowLine[of xs] f by auto
    have 2: "scan b2 (x # v) = x # scan (x # b2) v" using a b by (intro scan_skip) auto
    have 3: "scan (x # b2) v = v" unfolding v_def using skip(1) by (intro IH) auto
    show ?thesis using 1 2 3 by simp
  next
    case nil
    then show ?thesis by (simp add: scan_nil)
  qed
qed

text \<open>
  Claim C9. The table parser changes nothing in its own output: for every input \<open>t\<close>,
  \<open>parseMarkdownTables(parseMarkdownTables(t))\<close> equals \<open>parseMarkdownTables(t)\<close>.
  The second pass finds again the blocks that the first pass returned unchanged, and
  returns them unchanged again; the lines of an emitted table all start with \<open><\<close>
  and none of them starts a row.
\<close>

theorem table_parser_idempotent:
  "parseMarkdownTables (JStr (parseMarkdownTables t)) = parseMarkdownTables t"
proof (cases "guardString t")
  case None
  then show ?thesis by (simp add: parseMarkdownTables_def)
next
  case (Some s)
  have "scan [] (scan [] s) = scan [] s" by (rule scan_idem) simp
  then show ?thesis using Some
    by (simp add: parseMarkdownTables_def parseMarkdownTablesStr_def replaceAll_def scan_nil)
qed


section \<open>What the transformer writes\<close>

subsection \<open>No list tag of the ordered kind is written\<close>


















subsection \<open>The table rule\<close>























subsection \<open>The rules after the protection of code spans\<close>















subsection \<open>Code spans\<close>









lemma restore_nil: "restore name i [] html = html" by simp

















subsection \<open>Rules that do not fire\<close>







subsection \<open>A text of ordered lines\<close>
























text \<open>
  Why the text must be free of backticks or of \<open>$\<close>: the stored fragment of a code span
  is put back with a string replacement, which expands \<open>$`\<close> to the text before the
  token. Here that text is \<open><\<close>, and it lands in front of \<open>ol\<close>.
\<close>

lemma restored_code_expands_dollar_patterns:
  "markdownToHTML (JStr (''<'' @ [CHR 0x60, CHR 0x60, CHR 0x60] @ ''$'' @ [CHR 0x60] @ ''$'' @ [CHR 0x27]
                          @ [CHR 0x60, CHR 0x60, CHR 0x60] @ ''ol''))
     = ''<<pre><code><ol</code></pre>ol''"
  by code_simp

end
